theory Spec2Isabelle
  imports Main "HOL-Library.Sublist"
begin

section \<open>Python strings\<close>

text \<open>
  A Python \<open>str\<close> is modelled as a \<open>string\<close>; each \<open>char\<close> stands for one code point
  below 256. On that range \<open>\d\<close> is \<open>0-9\<close>, and \<open>str.strip()\<close>, \<open>str.split()\<close> use the
  white space of \<open>str.isspace\<close>: code points 9-13, 28-32, 133 and 160.
\<close>

definition is_space :: "char \<Rightarrow> bool" where
  "is_space c =
     (let n = (of_char c :: nat)
      in (9 \<le> n \<and> n \<le> 13) \<or> (28 \<le> n \<and> n \<le> 32) \<or> n = 133 \<or> n = 160)"

definition is_digit :: "char \<Rightarrow> bool" where
  "is_digit c = (let n = (of_char c :: nat) in 48 \<le> n \<and> n \<le> 57)"

definition is_upper :: "char \<Rightarrow> bool" where
  "is_upper c = (let n = (of_char c :: nat) in 65 \<le> n \<and> n \<le> 90)"

text \<open>\<open>str.lower()\<close>, one code point at a time: \<open>A-Z\<close> and the Latin-1 capitals
  (192-222 without the multiplication sign 215) move up by 32.\<close>

definition lower_char :: "char \<Rightarrow> char" where
  "lower_char c =
     (let n = (of_char c :: nat)
      in if (65 \<le> n \<and> n \<le> 90) \<or> (192 \<le> n \<and> n \<le> 222 \<and> n \<noteq> 215)
         then char_of (n + 32) else c)"

definition lower :: "string \<Rightarrow> string" where
  "lower s = map lower_char s"

text \<open>\<open>s.strip()\<close>: white space removed at both ends.\<close>

definition strip :: "string \<Rightarrow> string" where
  "strip s = rev (dropWhile is_space (rev (dropWhile is_space s)))"

text \<open>\<open>s.split()\<close>: the maximal runs of non-space characters, in order. The first
  argument is the token being read.\<close>

fun split_from :: "string \<Rightarrow> string \<Rightarrow> string list" where
  "split_from cur [] = (if cur = [] then [] else [cur])"
| "split_from cur (c # cs) =
     (if is_space c
      then (if cur = [] then split_from [] cs else cur # split_from [] cs)
      else split_from (cur @ [c]) cs)"

definition split :: "string \<Rightarrow> string list" where
  "split s = split_from [] s"

text \<open>\<open>key in s\<close> on strings: \<open>key\<close> occurs in \<open>s\<close> as a contiguous run.\<close>

fun str_in :: "string \<Rightarrow> string \<Rightarrow> bool" where
  "str_in key [] = (key = [])"
| "str_in key (c # cs) = (if prefix key (c # cs) then True else str_in key cs)"

text \<open>\<open>s.partition(">")[0]\<close>: the part of \<open>s\<close> before the first \<open>>\<close> (all of \<open>s\<close> when
  there is none).\<close>

definition before_gt :: "string \<Rightarrow> string" where
  "before_gt s = takeWhile (\<lambda>c. c \<noteq> CHR ''>'') s"

section \<open>The two regular expressions of \<open>get_incidents\<close>\<close>

text \<open>
  A shape is a template in which \<open>d\<close> stands for \<open>\d\<close> and every other character for
  itself. Without the MULTILINE flag, \<open>$\<close> matches at the end of the string and also just
  before a final line feed.
\<close>

fun match_shape :: "string \<Rightarrow> string \<Rightarrow> bool" where
  "match_shape [] [] = True"
| "match_shape (p # ps) (c # cs) =
     ((if p = CHR ''d'' then is_digit c else c = p) \<and> match_shape ps cs)"
| "match_shape _ _ = False"

definition before_final_newline :: "string \<Rightarrow> string" where
  "before_final_newline s = (if s \<noteq> [] \<and> last s = CHR 0x0A then butlast s else s)"

text \<open>\<open>id_re = re.compile(r"^[A-Z]\d+$")\<close>, and \<open>id_re.match(line)\<close>.\<close>

definition all_digits1 :: "string \<Rightarrow> bool" where
  "all_digits1 ds = (ds \<noteq> [] \<and> list_all is_digit ds)"

definition id_re_match :: "string \<Rightarrow> bool" where
  "id_re_match line =
     (case line of
        [] \<Rightarrow> False
      | c # rest \<Rightarrow>
          is_upper c \<and> (all_digits1 rest \<or> all_digits1 (before_final_newline rest)))"

text \<open>\<open>re.match(r"^\d{2}-\d{2}-\d{4} \d{2}:\d{2}:\d{2}$", ts_str)\<close>.\<close>

definition ts_shape :: string where
  "ts_shape = ''dd-dd-dddd dd:dd:dd''"

definition ts_re_match :: "string \<Rightarrow> bool" where
  "ts_re_match ts_str =
     (match_shape ts_shape ts_str \<or> match_shape ts_shape (before_final_newline ts_str))"

section \<open>Dates and times\<close>

text \<open>
  A \<open>datetime\<close> value is represented by its place on the wall-clock time line of the
  proleptic Gregorian calendar: microseconds counted from day number 0 (the day before
  0001-01-01), with the day numbers of \<open>date.toordinal\<close>. Python compares two aware
  datetimes that carry the same \<open>tzinfo\<close> object by their wall-clock fields, and
  \<open>ZoneInfo("America/New_York")\<close> returns one cached object, so \<open>dt < cutoff\<close> in
  \<open>get_incidents\<close> is the comparison of these numbers, and subtracting a \<open>timedelta\<close>
  subtracts its microseconds. The clock reads a time of the present era, so that
  \<open>now - timedelta(hours=8)\<close> stays within the range of \<open>datetime\<close> and raises nothing.
\<close>

type_synonym datetime = int

definition is_leap :: "nat \<Rightarrow> bool" where
  "is_leap year = (year mod 4 = 0 \<and> (year mod 100 \<noteq> 0 \<or> year mod 400 = 0))"

definition days_before_year :: "nat \<Rightarrow> nat" where
  "days_before_year year =
     (let y = year - 1 in y * 365 + y div 4 - y div 100 + y div 400)"

definition days_in_month :: "nat \<Rightarrow> nat \<Rightarrow> nat" where
  "days_in_month year month =
     (if month = 2 \<and> is_leap year then 29
      else [0, 31, 28, 31, 30, 31, 30, 31, 31, 30, 31, 30, 31] ! month)"

definition days_before_month :: "nat \<Rightarrow> nat \<Rightarrow> nat" where
  "days_before_month year month =
     [0, 0, 31, 59, 90, 120, 151, 181, 212, 243, 273, 304, 334] ! month
       + (if month > 2 \<and> is_leap year then 1 else 0)"

definition ymd2ord :: "nat \<Rightarrow> nat \<Rightarrow> nat \<Rightarrow> nat" where
  "ymd2ord year month day = days_before_year year + days_before_month year month + day"

definition hours :: "int \<Rightarrow> int" where
  "hours h = h * 3600 * 1000000"

definition seconds :: "int \<Rightarrow> int" where
  "seconds s = s * 1000000"

text \<open>\<open>datetime(year, month, day, hour, minute, second)\<close> for fields in range.\<close>

definition mk_datetime :: "nat \<Rightarrow> nat \<Rightarrow> nat \<Rightarrow> nat \<Rightarrow> nat \<Rightarrow> nat \<Rightarrow> datetime" where
  "mk_datetime year month day hour minute second =
     seconds (int (((ymd2ord year month day * 24 + hour) * 60 + minute) * 60 + second))"

datatype py_error = ValueError

definition digit_val :: "char \<Rightarrow> nat" where
  "digit_val c = of_char c - 48"

definition to_int :: "string \<Rightarrow> nat" where
  "to_int ds = foldl (\<lambda>a c. 10 * a + digit_val c) 0 ds"

text \<open>
  \<open>datetime.strptime(ts_str, "%m-%d-%Y %H:%M:%S")\<close>, as \<open>get_incidents\<close> calls it: on a
  string that passed \<open>ts_re_match\<close>. A final line feed is unconverted data. The format's
  own patterns admit months 01-12, days 01-31, hours 00-23, minutes 00-59 and seconds
  00-61; the \<open>datetime\<close> constructor then wants a year from 1, a day that the month has,
  and a second below 60. Every failure is a \<open>ValueError\<close>.
\<close>

definition strptime :: "string \<Rightarrow> py_error + datetime" where
  "strptime ts_str =
     (if \<not> match_shape ts_shape ts_str then Inl ValueError
      else
        let month = to_int (take 2 ts_str);
            day = to_int (take 2 (drop 3 ts_str));
            year = to_int (take 4 (drop 6 ts_str));
            hour = to_int (take 2 (drop 11 ts_str));
            minute = to_int (take 2 (drop 14 ts_str));
            second = to_int (take 2 (drop 17 ts_str))
        in if month < 1 \<or> 12 < month then Inl ValueError
           else if day < 1 \<or> 31 < day then Inl ValueError
           else if 23 < hour then Inl ValueError
           else if 59 < minute then Inl ValueError
           else if 61 < second then Inl ValueError
           else if year < 1 then Inl ValueError
           else if days_in_month year month < day then Inl ValueError
           else if 59 < second then Inl ValueError
           else Inr (mk_datetime year month day hour minute second))"

section \<open>The world outside the program\<close>

text \<open>
  A fetched page is given by what \<open>BeautifulSoup\<close> extracts from it: its anchors, each
  as the pair of \<open>a.get_text(strip=True)\<close> and \<open>a.get("href") or ""\<close>, and the lines
  \<open>soup.get_text("\n", strip=True).splitlines()\<close>. \<open>Fetch_failed\<close> is any exception of
  \<open>requests.get\<close> or \<open>raise_for_status\<close>: a network error or a non-success status.
\<close>

datatype response = Fetch_failed | Page "(string \<times> string) list" "string list"

record incident =
  timestamp :: datetime
  inc_id :: string
  location :: string
  municipality :: string
  inc_type :: string
  category :: string
  station :: string
  description :: string
  raw_timestamp :: string
  comments_url :: string
  units_on_scene :: "string list"

record payload =
  last_update :: datetime
  total_incidents :: nat
  filtered_incidents :: nat
  payload_incidents :: "incident list"

text \<open>What the process does to the outside, in order. A publish that raises is not
  recorded.\<close>

datatype event =
    Connect
  | Http_get string
  | Publish string payload
  | Disconnect
  | Sleep nat

datatype connect_result = Connect_ok | Connect_OSError | Connect_error

text \<open>
  The outside answers as a function of the history so far: \<open>http_get\<close> is
  \<open>requests.get\<close> with \<open>raise_for_status\<close>, \<open>datetime_now\<close> is
  \<open>datetime.now(ZoneInfo("America/New_York"))\<close>, \<open>mqtt_connect\<close> is \<open>client.connect\<close>, and
  \<open>mqtt_publish\<close> tells whether \<open>client.publish\<close> returns (\<open>True\<close>) or raises.
  \<open>urljoin\<close> is \<open>urllib.parse.urljoin\<close>.
\<close>

record env =
  http_get :: "event list \<Rightarrow> string \<Rightarrow> response"
  datetime_now :: "event list \<Rightarrow> datetime"
  mqtt_connect :: "event list \<Rightarrow> connect_result"
  mqtt_publish :: "event list \<Rightarrow> bool"
  urljoin :: "string \<Rightarrow> string \<Rightarrow> string"

text \<open>The configuration read from the environment at start-up. \<open>TARGET_FILTERS\<close> is a
  Python set; the list holds its elements in the order in which the set iterates.\<close>

record config =
  TARGET_FILTERS :: "string list"
  MQTT_TOPIC :: string
  POLL_INTERVAL :: nat

definition URL :: string where
  "URL = ''https://webcad.chesco.org/WebCad/webcad.asp''"

text \<open>\<open>lines = [l for l in text.splitlines() if l.strip()]\<close>.\<close>

definition nonblank_lines :: "string list \<Rightarrow> string list" where
  "nonblank_lines text_lines = filter (\<lambda>l. strip l \<noteq> []) text_lines"

section \<open>\<open>get_units_on_scene\<close>\<close>

text \<open>The \<open>for line in lines\<close> loop; the second argument is \<open>units\<close>.\<close>

fun units_loop :: "string list \<Rightarrow> string list \<Rightarrow> string list" where
  "units_loop [] units = units"
| "units_loop (line # rest) units =
     (let line_stripped = strip line;
          line_lower = lower line_stripped
      in if \<not> str_in ''scene'' line_lower then units_loop rest units
         else if \<not> str_in ''>'' line_stripped then units_loop rest units
         else
           let before = before_gt line_stripped;
               tokens = split before
           in if tokens = [] then units_loop rest units
              else
                let unit = strip (last tokens)
                in if unit \<noteq> [] \<and> unit \<notin> set units
                   then units_loop rest (units @ [unit])
                   else units_loop rest units)"

definition get_units_on_scene :: "env \<Rightarrow> string \<Rightarrow> event list \<Rightarrow> string list \<times> event list" where
  "get_units_on_scene E url log =
     (if url = [] then ([], log)
      else
        case http_get E log url of
          Fetch_failed \<Rightarrow> ([], log @ [Http_get url])
        | Page anchors text_lines \<Rightarrow>
            (units_loop (nonblank_lines text_lines) [], log @ [Http_get url]))"

section \<open>\<open>get_incidents\<close>\<close>

text \<open>The loop over \<open>soup.find_all("a")\<close> that fills the dictionary \<open>incident_links\<close>.\<close>

fun links_loop :: "env \<Rightarrow> (string \<times> string) list \<Rightarrow> (string \<rightharpoonup> string) \<Rightarrow> (string \<rightharpoonup> string)" where
  "links_loop E [] incident_links = incident_links"
| "links_loop E ((text, href) # rest) incident_links =
     (if text = [] \<or> href = [] then links_loop E rest incident_links
      else if str_in ''livecadcomments'' (lower href)
      then links_loop E rest (incident_links(text \<mapsto> urljoin E URL href))
      else links_loop E rest incident_links)"

text \<open>\<open>current_category or "UNKNOWN"\<close>.\<close>

definition or_unknown :: "string option \<Rightarrow> string" where
  "or_unknown current_category =
     (case current_category of
        None \<Rightarrow> ''UNKNOWN''
      | Some c \<Rightarrow> (if c = [] then ''UNKNOWN'' else c))"

text \<open>The variables of the \<open>while\<close> loop that change: the cursor \<open>i\<close>, the category, the
  list of incidents, and the history of the outside.\<close>

record scan_state =
  cursor :: nat
  current_category :: "string option"
  incidents :: "incident list"
  history :: "event list"

datatype 'a flow = Next 'a | Break 'a

text \<open>
  One pass through the body of \<open>while i < len(lines)\<close>, entered with
  \<open>cursor s < length lines\<close>. \<open>Next\<close> is a \<open>continue\<close> or the end of the body, \<open>Break\<close> the
  \<open>break\<close>. The reads \<open>lines[i + 1]\<close> to \<open>lines[i + 5]\<close> come after the test
  \<open>i + 5 >= len(lines)\<close>, so they are in range.
\<close>

definition loop_body ::
  "env \<Rightarrow> (string \<rightharpoonup> string) \<Rightarrow> datetime \<Rightarrow> string list \<Rightarrow> scan_state \<Rightarrow> scan_state flow" where
  "loop_body E incident_links cutoff lines s =
     (let i = cursor s; line = lines ! i
      in if line = ''Fire Incidents''
         then Next (s\<lparr>current_category := Some ''FIRE'', cursor := i + 1\<rparr>)
         else if line = ''EMS Incidents''
         then Next (s\<lparr>current_category := Some ''EMS'', cursor := i + 1\<rparr>)
         else if line = ''Traffic Incidents''
         then Next (s\<lparr>current_category := Some ''TRAFFIC'', cursor := i + 1\<rparr>)
         else if prefix ''Incident No.'' line \<or> prefix ''Last Updated'' line
         then Next (s\<lparr>cursor := i + 1\<rparr>)
         else if \<not> id_re_match line then Next (s\<lparr>cursor := i + 1\<rparr>)
         else if i + 5 \<ge> length lines then Break s
         else
           let incident_id = strip (lines ! i);
               incident_type = strip (lines ! (i + 1));
               location' = strip (lines ! (i + 2));
               municipality' = strip (lines ! (i + 3));
               ts_str = strip (lines ! (i + 4));
               station' = strip (lines ! (i + 5));
               s = s\<lparr>cursor := i + 6\<rparr>
           in if \<not> ts_re_match ts_str then Next s
              else
                case strptime ts_str of
                  Inl ValueError \<Rightarrow> Next s
                | Inr dt \<Rightarrow>
                    if dt < cutoff then Next s
                    else
                      let description' =
                            location' @ '' | '' @ municipality' @ '' | '' @ incident_type
                              @ '' | '' @ or_unknown (current_category s)
                              @ '' | Stn '' @ station';
                          category' = or_unknown (current_category s);
                          comments_url' =
                            (case incident_links incident_id of None \<Rightarrow> [] | Some u \<Rightarrow> u);
                          (units, history') =
                            get_units_on_scene E comments_url' (history s);
                          incident =
                            \<lparr>timestamp = dt,
                             inc_id = incident_id,
                             location = location',
                             municipality = municipality',
                             inc_type = incident_type,
                             category = category',
                             station = station',
                             description = description',
                             raw_timestamp = ts_str,
                             comments_url = comments_url',
                             units_on_scene = units\<rparr>
                      in Next (s\<lparr>incidents := incidents s @ [incident],
                                 history := history'\<rparr>))"

text \<open>The \<open>while\<close> loop.\<close>

function scan_loop ::
  "env \<Rightarrow> (string \<rightharpoonup> string) \<Rightarrow> datetime \<Rightarrow> string list \<Rightarrow> scan_state \<Rightarrow> scan_state" where
  "scan_loop E incident_links cutoff lines s =
     (if cursor s < length lines
      then (case loop_body E incident_links cutoff lines s of
              Break s' \<Rightarrow> s'
            | Next s' \<Rightarrow> scan_loop E incident_links cutoff lines s')
      else s)"
  by pat_completeness auto
termination
  by (relation "measure (\<lambda>(E, incident_links, cutoff, lines, s). length lines - cursor s)")
     (auto simp: loop_body_def Let_def
           split: if_splits sum.splits prod.splits py_error.splits)

definition get_incidents :: "env \<Rightarrow> event list \<Rightarrow> incident list \<times> event list" where
  "get_incidents E log =
     (case http_get E log URL of
        Fetch_failed \<Rightarrow> ([], log @ [Http_get URL])
      | Page anchors text_lines \<Rightarrow>
          let log = log @ [Http_get URL];
              incident_links = links_loop E anchors Map.empty;
              lines = nonblank_lines text_lines;
              now = datetime_now E log;
              cutoff = now - hours 8;
              s = scan_loop E incident_links cutoff lines
                    \<lparr>cursor = 0, current_category = None, incidents = [], history = log\<rparr>
          in (incidents s, history s))"

section \<open>\<open>filter_incidents\<close>\<close>

text \<open>\<open>any(key in municipality for key in TARGET_FILTERS)\<close>.\<close>

fun any_key_in :: "string list \<Rightarrow> string \<Rightarrow> bool" where
  "any_key_in [] m = False"
| "any_key_in (key # keys) m = (if str_in key m then True else any_key_in keys m)"

text \<open>The \<open>for inc in incidents\<close> loop; the last argument is \<open>filtered\<close>.\<close>

fun filter_loop :: "string list \<Rightarrow> incident list \<Rightarrow> incident list \<Rightarrow> incident list" where
  "filter_loop target_filters [] filtered = filtered"
| "filter_loop target_filters (inc # rest) filtered =
     (if any_key_in target_filters (municipality inc)
      then filter_loop target_filters rest (filtered @ [inc])
      else filter_loop target_filters rest filtered)"

definition filter_incidents :: "string list \<Rightarrow> incident list \<Rightarrow> incident list" where
  "filter_incidents target_filters incs =
     (if target_filters = [] then incs else filter_loop target_filters incs [])"

section \<open>\<open>main_loop\<close>\<close>

text \<open>
  One pass through the body of \<open>while True\<close>. An \<open>OSError\<close> of \<open>client.connect\<close> sleeps
  and continues; any other exception, of \<open>connect\<close> or of \<open>publish\<close>, is caught by the
  outer handler, after which the pass ends with the same sleep.
\<close>

definition poll_cycle :: "config \<Rightarrow> env \<Rightarrow> event list \<Rightarrow> event list" where
  "poll_cycle C E log =
     (case mqtt_connect E log of
        Connect_OSError \<Rightarrow> log @ [Sleep (POLL_INTERVAL C)]
      | Connect_error \<Rightarrow> log @ [Sleep (POLL_INTERVAL C)]
      | Connect_ok \<Rightarrow>
          let log = log @ [Connect];
              (all_incidents, log) = get_incidents E log;
              my_incidents = filter_incidents (TARGET_FILTERS C) all_incidents;
              payload =
                \<lparr>last_update = datetime_now E log,
                 total_incidents = length all_incidents,
                 filtered_incidents = length my_incidents,
                 payload_incidents = my_incidents\<rparr>
          in if mqtt_publish E log
             then log @ [Publish (MQTT_TOPIC C) payload, Disconnect, Sleep (POLL_INTERVAL C)]
             else log @ [Sleep (POLL_INTERVAL C)])"

text \<open>The first \<open>n\<close> passes of the loop, which itself never ends.\<close>

fun main_loop :: "config \<Rightarrow> env \<Rightarrow> nat \<Rightarrow> event list \<Rightarrow> event list" where
  "main_loop C E 0 log = log"
| "main_loop C E (Suc n) log = main_loop C E n (poll_cycle C E log)"

section \<open>The specification's words\<close>

text \<open>
  The unit that the specification reads off one line of a comments page: the line contains
  \<open>scene\<close> in any letter case and a \<open>>\<close>, and the unit is the last white-space-separated
  token before the first \<open>>\<close>. \<open>sublist\<close> is contiguous containment.
\<close>

definition scene_unit :: "string \<Rightarrow> string option" where
  "scene_unit line =
     (if sublist ''scene'' (lower line) \<and> CHR ''>'' \<in> set line
      then (case split (before_gt line) of [] \<Rightarrow> None | t # ts \<Rightarrow> Some (last (t # ts)))
      else None)"

text \<open>Duplicates removed, each element staying where it was first seen.\<close>

definition dedup_first_seen :: "'a list \<Rightarrow> 'a list" where
  "dedup_first_seen xs = rev (remdups (rev xs))"

definition spec_units :: "string list \<Rightarrow> string list" where
  "spec_units lines = dedup_first_seen (List.map_filter scene_unit lines)"

section \<open>The scan, pass by pass\<close>

text \<open>The state in which \<open>get_incidents\<close> enters its loop.\<close>

definition start_state :: "event list \<Rightarrow> scan_state" where
  "start_state log = \<lparr>cursor = 0, current_category = None, incidents = [], history = log\<rparr>"

text \<open>The loop with a bound on the number of passes: \<open>None\<close> when the bound is reached
  before the loop has ended.\<close>

fun scan_iter ::
  "nat \<Rightarrow> env \<Rightarrow> (string \<rightharpoonup> string) \<Rightarrow> datetime \<Rightarrow> string list \<Rightarrow> scan_state
     \<Rightarrow> scan_state option" where
  "scan_iter 0 E incident_links cutoff lines s =
     (if cursor s < length lines then None else Some s)"
| "scan_iter (Suc n) E incident_links cutoff lines s =
     (if cursor s < length lines
      then (case loop_body E incident_links cutoff lines s of
              Break s' \<Rightarrow> Some s'
            | Next s' \<Rightarrow> scan_iter n E incident_links cutoff lines s')
      else Some s)"

text \<open>The state after at most \<open>n\<close> passes through the body: the passes stop at a
  \<open>break\<close> and at the end of the lines.\<close>

fun scan_steps ::
  "nat \<Rightarrow> env \<Rightarrow> (string \<rightharpoonup> string) \<Rightarrow> datetime \<Rightarrow> string list \<Rightarrow> scan_state
     \<Rightarrow> scan_state" where
  "scan_steps 0 E incident_links cutoff lines s = s"
| "scan_steps (Suc n) E incident_links cutoff lines s =
     (if cursor s < length lines
      then (case loop_body E incident_links cutoff lines s of
              Break s' \<Rightarrow> s'
            | Next s' \<Rightarrow> scan_steps n E incident_links cutoff lines s')
      else s)"

section \<open>Concrete inputs\<close>

definition example_comment_lines :: "string list" where
  "example_comment_lines = [''ENG45> On Scene'', ''ENG45> On Scene'', ''TWR1> At Scene'']"

definition incident_east :: incident where
  "incident_east =
     \<lparr>timestamp = mk_datetime 2025 11 29 0 31 4,
      inc_id = ''F25065066'',
      location = ''LANCASTER AVE & COUNTRY CLUB DR'',
      municipality = ''East Caln Township'',
      inc_type = ''FIRE ALARM'',
      category = ''FIRE'',
      station = ''46'',
      description =
        ''LANCASTER AVE & COUNTRY CLUB DR | East Caln Township | FIRE ALARM | FIRE | Stn 46'',
      raw_timestamp = ''11-29-2025 00:31:04'',
      comments_url = [],
      units_on_scene = []\<rparr>"

definition incident_west :: incident where
  "incident_west =
     incident_east\<lparr>inc_id := ''F25065067'', municipality := ''West Chester''\<rparr>"

definition example_now :: datetime where
  "example_now = mk_datetime 2025 11 29 8 0 0"

definition example_page_lines :: "string list" where
  "example_page_lines =
     [''Fire Incidents'', ''Incident No.'', ''F25065066'', ''FIRE ALARM'',
      ''LANCASTER AVE & COUNTRY CLUB DR'', ''East Caln Township'', ''11-29-2025 00:31:04'', ''46'']"

text \<open>A block dispatched one second before the cut-off of \<open>example_now\<close>, and one
  dispatched at the cut-off.\<close>

definition lines_stale :: "string list" where
  "lines_stale =
     [''F25065066'', ''FIRE ALARM'', ''LANCASTER AVE & COUNTRY CLUB DR'', ''East Caln Township'',
      ''11-28-2025 23:59:59'', ''11-28-2025 23:59:59'']"

definition lines_boundary :: "string list" where
  "lines_boundary =
     [''F25065066'', ''FIRE ALARM'', ''LANCASTER AVE & COUNTRY CLUB DR'', ''East Caln Township'',
      ''11-29-2025 00:00:00'', ''46'']"

text \<open>Blocks whose fifth line is no time stamp, or names a day that February has not.\<close>

definition lines_bad_shape :: "string list" where
  "lines_bad_shape =
     [''F25065066'', ''FIRE ALARM'', ''LANCASTER AVE & COUNTRY CLUB DR'', ''East Caln Township'',
      ''11/29/2025 00:31'', ''46'', ''F25065067'']"

definition lines_bad_date :: "string list" where
  "lines_bad_date =
     [''F25065066'', ''FIRE ALARM'', ''LANCASTER AVE & COUNTRY CLUB DR'', ''East Caln Township'',
      ''02-30-2025 00:31:04'', ''46'']"

text \<open>A block whose type line reads like a section header, followed by a second block.\<close>

definition lines_nested :: "string list" where
  "lines_nested =
     [''F25065066'', ''EMS Incidents'', ''LANCASTER AVE & COUNTRY CLUB DR'', ''East Caln Township'',
      ''11-29-2025 00:31:04'', ''46'',
      ''F25065067'', ''CARDIAC ARREST'', ''MAIN ST'', ''West Chester'', ''11-29-2025 00:45:00'',
      ''47'']"

text \<open>An outside where every fetch fails, and the bus works.\<close>

definition env_down :: env where
  "env_down =
     \<lparr>http_get = (\<lambda>log url. Fetch_failed),
      datetime_now = (\<lambda>log. example_now),
      mqtt_connect = (\<lambda>log. Connect_ok),
      mqtt_publish = (\<lambda>log. True),
      urljoin = (\<lambda>base href. ''https://webcad.chesco.org/WebCad/'' @ href)\<rparr>"

text \<open>A block with a second line of the incident-ID shape inside it, which has 5 more
  lines following and a time stamp of its own on its fifth line.\<close>

definition lines_overlap :: "string list" where
  "lines_overlap =
     [''F25065066'', ''F25065067'', ''MAIN ST'', ''West Chester'', ''11-29-2025 00:31:04'',
      ''11-29-2025 00:45:00'', ''47'']"

text \<open>The fire section, with a block whose type line reads like another header.\<close>

definition lines_fire_nested :: "string list" where
  "lines_fire_nested = ''Fire Incidents'' # lines_nested"

text \<open>An outside where the primary page has the given lines and no anchors, and every
  other fetch fails.\<close>

definition env_page :: "string list \<Rightarrow> env" where
  "env_page text_lines =
     \<lparr>http_get = (\<lambda>log url. if url = URL then Page [] text_lines else Fetch_failed),
      datetime_now = (\<lambda>log. example_now),
      mqtt_connect = (\<lambda>log. Connect_ok),
      mqtt_publish = (\<lambda>log. True),
      urljoin = (\<lambda>base href. ''https://webcad.chesco.org/WebCad/'' @ href)\<rparr>"


text \<open>An outside where the primary page lists two incidents, the first with a comments
  page.\<close>

definition env_up :: env where
  "env_up =
     \<lparr>http_get = (\<lambda>log url.
        if url = URL
        then Page [(''F25065066'', ''LiveCADComments.asp?eid=1'')]
               (example_page_lines @
                 ['' '', ''F25065067'', ''CARDIAC ARREST'', ''MAIN ST'', ''West Chester'',
                  ''11-29-2025 00:45:00'', ''47''])
        else if url = ''https://webcad.chesco.org/WebCad/LiveCADComments.asp?eid=1''
        then Page [] example_comment_lines
        else Fetch_failed),
      datetime_now = (\<lambda>log. example_now),
      mqtt_connect = (\<lambda>log. Connect_ok),
      mqtt_publish = (\<lambda>log. True),
      urljoin = (\<lambda>base href. ''https://webcad.chesco.org/WebCad/'' @ href)\<rparr>"

definition example_config :: config where
  "example_config =
     \<lparr>TARGET_FILTERS = [''East Caln''],
      MQTT_TOPIC = ''chesco/cad/official_summary'',
      POLL_INTERVAL = 60\<rparr>"

text \<open>The payload that the second outside leads to.\<close>

definition example_payload :: payload where
  "example_payload =
     \<lparr>last_update = example_now,
      total_incidents = 2,
      filtered_incidents = 1,
      payload_incidents =
        [incident_east
           \<lparr>comments_url := ''https://webcad.chesco.org/WebCad/LiveCADComments.asp?eid=1'',
            units_on_scene := [''ENG45'', ''TWR1'']\<rparr>]\<rparr>"

section \<open>Facts about the string operations\<close>

lemma str_in_sublist: "str_in key s \<longleftrightarrow> sublist key s"
  by (induction s) (auto simp: sublist_Cons_right)

lemma is_space_lower_char: "is_space (lower_char c) = is_space c"
  by (auto simp: is_space_def lower_char_def Let_def)

lemma lower_strip: "lower (strip s) = strip (lower s)"
proof -
  have eq: "is_space \<circ> lower_char = is_space"
    by (rule ext) (simp add: is_space_lower_char)
  show ?thesis
    by (simp add: lower_def strip_def rev_map dropWhile_map eq)
qed

lemma sublist_dropWhile:
  assumes "key \<noteq> []" and "\<not> P (hd key)"
  shows "sublist key (dropWhile P s) \<longleftrightarrow> sublist key s"
proof (induction s)
  case Nil
  show ?case by simp
next
  case (Cons c cs)
  show ?case
  proof (cases "P c")
    case True
    with assms have "\<not> prefix key (c # cs)"
      by (cases key) auto
    with True Cons show ?thesis
      by (simp add: sublist_Cons_right)
  next
    case False
    then show ?thesis by simp
  qed
qed

lemma sublist_strip:
  assumes "key \<noteq> []" and "\<not> is_space (hd key)" and "\<not> is_space (last key)"
  shows "sublist key (strip s) \<longleftrightarrow> sublist key s"
proof -
  have "sublist key (strip s) \<longleftrightarrow> sublist (rev key) (dropWhile is_space (rev (dropWhile is_space s)))"
    by (simp add: strip_def sublist_rev_right)
  also have "\<dots> \<longleftrightarrow> sublist (rev key) (rev (dropWhile is_space s))"
    using assms by (intro sublist_dropWhile) (simp_all add: hd_rev)
  also have "\<dots> \<longleftrightarrow> sublist key (dropWhile is_space s)"
    by simp
  also have "\<dots> \<longleftrightarrow> sublist key s"
    using assms by (intro sublist_dropWhile)
  finally show ?thesis .
qed

lemma sublist_single: "sublist [x] ys \<longleftrightarrow> x \<in> set ys"
  by (induction ys) (auto simp: sublist_Cons_right)

lemma scene_in_stripped: "str_in ''scene'' (lower (strip line)) \<longleftrightarrow> sublist ''scene'' (lower line)"
  by (simp add: str_in_sublist lower_strip sublist_strip is_space_def)

lemma gt_in_stripped: "str_in ''>'' (strip line) \<longleftrightarrow> CHR ''>'' \<in> set line"
proof -
  have "sublist ''>'' (strip line) \<longleftrightarrow> sublist ''>'' line"
    by (rule sublist_strip) (simp_all add: is_space_def)
  then show ?thesis
    by (simp add: str_in_sublist sublist_single)
qed

lemma split_from_dropWhile: "split_from [] (dropWhile is_space s) = split_from [] s"
  by (induction s) simp_all

lemma before_gt_dropWhile:
  "before_gt (dropWhile is_space s) = dropWhile is_space (before_gt s)"
  by (induction s) (auto simp: before_gt_def is_space_def)

lemma mem_dropWhile: "x \<in> set xs \<Longrightarrow> \<not> P x \<Longrightarrow> x \<in> set (dropWhile P xs)"
  by (induction xs) auto

lemma before_gt_rstrip:
  assumes "CHR ''>'' \<in> set s"
  shows "before_gt (rev (dropWhile is_space (rev s))) = before_gt s"
proof -
  from assms obtain a b where s: "s = a @ CHR ''>'' # b" and a: "CHR ''>'' \<notin> set a"
    by (auto dest: split_list_first)
  have ns: "\<not> is_space CHR ''>''"
    by (simp add: is_space_def)
  have "dropWhile is_space (rev s) = dropWhile is_space (rev b) @ CHR ''>'' # rev a"
    unfolding s using ns by (simp add: dropWhile_append3)
  then have "rev (dropWhile is_space (rev s)) = a @ CHR ''>'' # rev (dropWhile is_space (rev b))"
    by simp
  then show ?thesis
    using a by (simp add: before_gt_def s takeWhile_tail)
qed

lemma split_before_gt_strip:
  assumes "CHR ''>'' \<in> set line"
  shows "split (before_gt (strip line)) = split (before_gt line)"
proof -
  have "CHR ''>'' \<in> set (dropWhile is_space line)"
    using assms by (rule mem_dropWhile) (simp add: is_space_def)
  then have "before_gt (strip line) = before_gt (dropWhile is_space line)"
    unfolding strip_def by (rule before_gt_rstrip)
  then show ?thesis
    by (simp add: split_def before_gt_dropWhile split_from_dropWhile)
qed

lemma split_from_tokens:
  "\<forall>c\<in>set cur. \<not> is_space c \<Longrightarrow>
     \<forall>t\<in>set (split_from cur s). t \<noteq> [] \<and> (\<forall>c\<in>set t. \<not> is_space c)"
proof (induction s arbitrary: cur)
  case Nil
  then show ?case by simp
next
  case (Cons c cs)
  show ?case
  proof (cases "is_space c")
    case True
    with Cons.prems Cons.IH [of "[]"] show ?thesis by simp
  next
    case False
    with Cons.prems Cons.IH [of "cur @ [c]"] show ?thesis by simp
  qed
qed

lemma split_tokens: "t \<in> set (split s) \<Longrightarrow> t \<noteq> [] \<and> (\<forall>c\<in>set t. \<not> is_space c)"
  using split_from_tokens [of "[]" s] by (simp add: split_def)

lemma dropWhile_none: "\<forall>x\<in>set xs. \<not> P x \<Longrightarrow> dropWhile P xs = xs"
  by (cases xs) auto

lemma strip_token: "\<forall>c\<in>set t. \<not> is_space c \<Longrightarrow> strip t = t"
  by (simp add: strip_def dropWhile_none)

lemma dedup_first_seen_snoc:
  "dedup_first_seen (us @ [u]) =
     (if u \<in> set us then dedup_first_seen us else dedup_first_seen us @ [u])"
  by (simp add: dedup_first_seen_def)

lemma set_dedup_first_seen: "set (dedup_first_seen us) = set us"
  by (simp add: dedup_first_seen_def)

text \<open>What one pass of the loop of \<open>get_units_on_scene\<close> does with a line.\<close>

lemma units_loop_step:
  "units_loop (line # rest) units =
     (case scene_unit line of
        None \<Rightarrow> units_loop rest units
      | Some unit \<Rightarrow>
          if unit \<in> set units then units_loop rest units else units_loop rest (units @ [unit]))"
proof (cases "sublist ''scene'' (lower line) \<and> CHR ''>'' \<in> set line")
  case False
  then show ?thesis
    by (auto simp: scene_unit_def scene_in_stripped gt_in_stripped Let_def)
next
  case True
  show ?thesis
  proof (cases "split (before_gt line)")
    case Nil
    with True show ?thesis
      by (simp add: scene_unit_def scene_in_stripped gt_in_stripped split_before_gt_strip Let_def)
  next
    case (Cons t ts)
    have "last (t # ts) \<in> set (split (before_gt line))"
      unfolding Cons by (rule last_in_set) simp
    then have tok: "last (t # ts) \<noteq> []" "strip (last (t # ts)) = last (t # ts)"
      using split_tokens [of "last (t # ts)" "before_gt line"] by (simp_all add: strip_token)
    from True Cons tok show ?thesis
      by (simp add: scene_unit_def scene_in_stripped gt_in_stripped split_before_gt_strip Let_def
            del: last.simps)
  qed
qed

lemma units_loop_dedup:
  "units_loop lines (dedup_first_seen pre) =
     dedup_first_seen (pre @ List.map_filter scene_unit lines)"
proof (induction lines arbitrary: pre)
  case Nil
  show ?case by (simp add: map_filter_simps)
next
  case (Cons line rest)
  show ?case
  proof (cases "scene_unit line")
    case None
    then show ?thesis
      using Cons [of pre] by (simp add: units_loop_step map_filter_simps del: units_loop.simps)
  next
    case (Some unit)
    have "units_loop (line # rest) (dedup_first_seen pre) =
            units_loop rest (dedup_first_seen (pre @ [unit]))"
      using Some
      by (simp add: units_loop_step dedup_first_seen_snoc set_dedup_first_seen
            del: units_loop.simps)
    then show ?thesis
      using Cons [of "pre @ [unit]"] Some by (simp add: map_filter_simps del: units_loop.simps)
  qed
qed

lemma units_loop_spec: "units_loop lines [] = spec_units lines"
  using units_loop_dedup [of lines "[]"] by (simp add: spec_units_def dedup_first_seen_def)


section \<open>Units on scene\<close>

lemma units_loop_example: "units_loop example_comment_lines [] = [''ENG45'', ''TWR1'']"
  by (simp add: example_comment_lines_def Let_def strip_def is_space_def lower_def lower_char_def
        split_def before_gt_def char_of_def bit_Suc_0_iff)

text \<open>
  Claim C5. For every sequence of comments-page lines, the loop of \<open>get_units_on_scene\<close>
  returns exactly the units that the specification describes: for each line that contains
  \<open>scene\<close> in any letter case and a \<open>>\<close>, the last white-space-separated token before the
  first \<open>>\<close>, duplicates removed, in first-seen order. So does \<open>get_units_on_scene\<close> on a
  page that was fetched. The three example lines yield \<open>ENG45\<close>, \<open>TWR1\<close>, in that order.
\<close>

theorem units_on_scene_refines_spec:
  "units_loop lines [] = spec_units lines \<and>
   (url \<noteq> [] \<and> http_get E log url = Page anchors text_lines \<longrightarrow>
      fst (get_units_on_scene E url log) = spec_units (nonblank_lines text_lines)) \<and>
   units_loop [''ENG45> On Scene'', ''ENG45> On Scene'', ''TWR1> At Scene''] [] =
     [''ENG45'', ''TWR1'']"
  using units_loop_example
  by (simp add: units_loop_spec get_units_on_scene_def example_comment_lines_def
        del: units_loop.simps)

theorem units_on_scene_refines_spec_witness:
  "spec_units example_comment_lines = [''ENG45'', ''TWR1'']"
  using units_on_scene_refines_spec [of example_comment_lines "[]" env_down "[]" "[]" "[]"]
    units_loop_example
  by simp

section \<open>The municipality filter\<close>

lemma any_key_in_iff: "any_key_in keys m \<longleftrightarrow> (\<exists>key\<in>set keys. sublist key m)"
  by (induction keys) (simp_all add: str_in_sublist)

lemma filter_loop_eq:
  "filter_loop tf incs filtered =
     filtered @ filter (\<lambda>inc. \<exists>key\<in>set tf. sublist key (municipality inc)) incs"
  by (induction incs arbitrary: filtered) (simp_all add: any_key_in_iff)

text \<open>
  Claim C8. With no configured filter, \<open>filter_incidents\<close> returns the incident list as it
  is. With a non-empty filter set it keeps exactly the incidents whose municipality contains
  one of the configured strings (case-sensitive, contiguous), in order: with the filter
  \<open>East Caln\<close>, an incident of East Caln Township stays and one of West Chester goes.
\<close>

theorem filter_incidents_spec:
  "(target_filters = [] \<longrightarrow> filter_incidents target_filters incs = incs) \<and>
   (target_filters \<noteq> [] \<longrightarrow>
      filter_incidents target_filters incs =
        filter (\<lambda>inc. \<exists>key\<in>set target_filters. sublist key (municipality inc)) incs) \<and>
   (municipality a = ''East Caln Township'' \<and> municipality b = ''West Chester'' \<longrightarrow>
      filter_incidents [''East Caln''] [a, b] = [a] \<and> filter_incidents [] [a, b] = [a, b])"
  by (simp add: filter_incidents_def filter_loop_eq flip: str_in_sublist)

theorem filter_incidents_spec_witness:
  "filter_incidents [''East Caln''] [incident_east, incident_west] = [incident_east] \<and>
   filter_incidents [] [incident_east, incident_west] = [incident_east, incident_west] \<and>
   filter_incidents [''East Caln'', ''West''] [incident_west, incident_east] =
     [incident_west, incident_east]"
  using filter_incidents_spec [of "[''East Caln'', ''West'']" "[incident_west, incident_east]"
      incident_east incident_west]
  by (simp add: incident_east_def incident_west_def flip: str_in_sublist)

section \<open>Facts about the scan\<close>

lemma id_re_match_second_digit:
  assumes "id_re_match line"
  shows "\<exists>c d r. line = c # d # r \<and> is_digit d"
proof -
  from assms obtain c rest where line: "line = c # rest"
    and d: "all_digits1 rest \<or> all_digits1 (before_final_newline rest)"
    by (auto simp: id_re_match_def split: list.splits)
  from d have "rest \<noteq> [] \<and> is_digit (hd rest)"
  proof
    assume "all_digits1 rest"
    then show ?thesis by (cases rest) (auto simp: all_digits1_def)
  next
    assume a: "all_digits1 (before_final_newline rest)"
    show ?thesis
    proof (cases "rest \<noteq> [] \<and> last rest = CHR 0x0A")
      case True
      with a have "butlast rest \<noteq> []" "is_digit (hd (butlast rest))"
        by (auto simp: all_digits1_def before_final_newline_def list_all_iff)
      moreover from this True have "hd (butlast rest) = hd rest"
        by (cases rest) auto
      ultimately show ?thesis using True by simp
    next
      case False
      with a show ?thesis
        by (cases rest) (auto simp: all_digits1_def before_final_newline_def)
    qed
  qed
  with line show ?thesis by (cases rest) auto
qed

lemma id_line_not_header:
  assumes "id_re_match line"
  shows "line \<noteq> ''Fire Incidents''" "line \<noteq> ''EMS Incidents''" "line \<noteq> ''Traffic Incidents''"
    "\<not> prefix ''Incident No.'' line" "\<not> prefix ''Last Updated'' line"
  using id_re_match_second_digit [OF assms] by (auto simp: is_digit_def)

lemma loop_body_break:
  assumes "id_re_match (lines ! cursor s)" and "length lines \<le> cursor s + 5"
  shows "loop_body E incident_links cutoff lines s = Break s"
  using assms id_line_not_header [OF assms(1)] by (simp add: loop_body_def Let_def)

lemma loop_body_block:
  assumes "id_re_match (lines ! cursor s)" and "cursor s + 5 < length lines"
  shows "loop_body E incident_links cutoff lines s =
     (let ts_str = strip (lines ! (cursor s + 4));
          url = (case incident_links (strip (lines ! cursor s)) of None \<Rightarrow> [] | Some u \<Rightarrow> u)
      in if \<not> ts_re_match ts_str then Next (s\<lparr>cursor := cursor s + 6\<rparr>)
         else case strptime ts_str of
           Inl e \<Rightarrow> Next (s\<lparr>cursor := cursor s + 6\<rparr>)
         | Inr dt \<Rightarrow>
             if dt < cutoff then Next (s\<lparr>cursor := cursor s + 6\<rparr>)
             else Next (s\<lparr>cursor := cursor s + 6,
                    incidents := incidents s @
                      [\<lparr>timestamp = dt,
                        inc_id = strip (lines ! cursor s),
                        location = strip (lines ! (cursor s + 2)),
                        municipality = strip (lines ! (cursor s + 3)),
                        inc_type = strip (lines ! (cursor s + 1)),
                        category = or_unknown (current_category s),
                        station = strip (lines ! (cursor s + 5)),
                        description =
                          strip (lines ! (cursor s + 2)) @ '' | '' @ strip (lines ! (cursor s + 3))
                            @ '' | '' @ strip (lines ! (cursor s + 1)) @ '' | ''
                            @ or_unknown (current_category s) @ '' | Stn ''
                            @ strip (lines ! (cursor s + 5)),
                        raw_timestamp = ts_str,
                        comments_url = url,
                        units_on_scene = fst (get_units_on_scene E url (history s))\<rparr>],
                    history := snd (get_units_on_scene E url (history s))\<rparr>))"
  using assms id_line_not_header [OF assms(1)]
  by (simp add: loop_body_def Let_def split_beta split: sum.splits py_error.splits)


text \<open>The day number of the specification's scenario is the one that \<open>date.toordinal\<close>
  gives, 739584.\<close>

lemma ymd2ord_example: "ymd2ord 2025 11 29 = 739584 \<and> ymd2ord 2024 3 1 = 738946"
  by (simp add: ymd2ord_def days_before_year_def days_before_month_def is_leap_def)

lemma get_units_history:
  "snd (get_units_on_scene E url log) = (if url = [] then log else log @ [Http_get url])"
  by (simp add: get_units_on_scene_def split: response.splits)

lemma loop_body_not_id:
  assumes "\<not> id_re_match (lines ! cursor s)"
  shows "loop_body E incident_links cutoff lines s =
     (if lines ! cursor s = ''Fire Incidents''
      then Next (s\<lparr>current_category := Some ''FIRE'', cursor := cursor s + 1\<rparr>)
      else if lines ! cursor s = ''EMS Incidents''
      then Next (s\<lparr>current_category := Some ''EMS'', cursor := cursor s + 1\<rparr>)
      else if lines ! cursor s = ''Traffic Incidents''
      then Next (s\<lparr>current_category := Some ''TRAFFIC'', cursor := cursor s + 1\<rparr>)
      else Next (s\<lparr>cursor := cursor s + 1\<rparr>))"
  using assms by (simp add: loop_body_def Let_def)

text \<open>What any pass through the body leaves behind: incidents are only appended, each with
  the category in force, and the history grows by page fetches only.\<close>

lemma loop_body_effect:
  assumes "loop_body E incident_links cutoff lines s = Next s' \<or>
           loop_body E incident_links cutoff lines s = Break s'"
  shows "\<exists>new evs. incidents s' = incidents s @ new \<and> history s' = history s @ evs \<and>
           (\<forall>e\<in>set evs. \<exists>u. e = Http_get u) \<and>
           (\<forall>inc\<in>set new. category inc = or_unknown (current_category s))"
proof (cases "id_re_match (lines ! cursor s)")
  case False
  from assms show ?thesis
    unfolding loop_body_not_id [OF False] by (auto split: if_splits)
next
  case True
  show ?thesis
  proof (cases "cursor s + 5 < length lines")
    case False
    with True have "loop_body E incident_links cutoff lines s = Break s"
      by (simp add: loop_body_break)
    with assms show ?thesis by auto
  next
    case len: True
    from assms show ?thesis
      unfolding loop_body_block [OF True len]
      by (auto simp: Let_def get_units_history split: if_splits sum.splits)
  qed
qed

lemma loop_body_category:
  assumes "loop_body E incident_links cutoff lines s = Next s' \<or>
           loop_body E incident_links cutoff lines s = Break s'"
  shows "current_category s' =
     (if lines ! cursor s = ''Fire Incidents'' then Some ''FIRE''
      else if lines ! cursor s = ''EMS Incidents'' then Some ''EMS''
      else if lines ! cursor s = ''Traffic Incidents'' then Some ''TRAFFIC''
      else current_category s)"
proof (cases "id_re_match (lines ! cursor s)")
  case False
  from assms show ?thesis
    unfolding loop_body_not_id [OF False] by (auto split: if_splits)
next
  case True
  note nh = id_line_not_header [OF True]
  show ?thesis
  proof (cases "cursor s + 5 < length lines")
    case False
    with True have "loop_body E incident_links cutoff lines s = Break s"
      by (simp add: loop_body_break)
    with assms nh show ?thesis by auto
  next
    case len: True
    from assms nh show ?thesis
      unfolding loop_body_block [OF True len]
      by (auto simp: Let_def split: if_splits sum.splits)
  qed
qed

lemma scan_loop_invariant:
  assumes "I s"
    and "\<And>s s'. I s \<Longrightarrow> cursor s < length lines \<Longrightarrow>
        loop_body E incident_links cutoff lines s = Next s' \<or>
        loop_body E incident_links cutoff lines s = Break s' \<Longrightarrow> I s'"
  shows "I (scan_loop E incident_links cutoff lines s)"
  using assms
proof (induction E incident_links cutoff lines s rule: scan_loop.induct)
  case (1 E incident_links cutoff lines s)
  note step = "1.prems"(2)
  show ?case
  proof (cases "cursor s < length lines")
    case False
    with "1.prems"(1) show ?thesis by simp
  next
    case True
    show ?thesis
    proof (cases "loop_body E incident_links cutoff lines s")
      case (Break s')
      with True "1.prems"(1) step [of s s'] show ?thesis by simp
    next
      case (Next s')
      with True "1.prems"(1) step [of s s'] have "I s'" by simp
      then have "I (scan_loop E incident_links cutoff lines s')"
        using step by (rule "1.IH" [OF True Next])
      with Next True show ?thesis by simp
    qed
  qed
qed

text \<open>The definitions that a concrete input is evaluated with.\<close>

lemmas eval_defs =
  loop_body_def Let_def id_re_match_def all_digits1_def before_final_newline_def is_digit_def
  is_upper_def is_space_def strip_def ts_re_match_def ts_shape_def strptime_def to_int_def
  digit_val_def days_in_month_def is_leap_def mk_datetime_def ymd2ord_def days_before_year_def
  days_before_month_def seconds_def hours_def or_unknown_def get_units_on_scene_def
  start_state_def example_now_def

lemma loop_body_emit:
  assumes "id_re_match (lines ! cursor s)" and "cursor s + 5 < length lines"
    and "ts_re_match (strip (lines ! (cursor s + 4)))"
    and "strptime (strip (lines ! (cursor s + 4))) = Inr dt"
    and "\<not> dt < cutoff"
  shows "\<exists>inc. loop_body E incident_links cutoff lines s =
           Next (s\<lparr>cursor := cursor s + 6, incidents := incidents s @ [inc],
                   history := snd (get_units_on_scene E (comments_url inc) (history s))\<rparr>) \<and>
         timestamp inc = dt \<and>
         inc_id inc = strip (lines ! cursor s) \<and>
         inc_type inc = strip (lines ! (cursor s + 1)) \<and>
         location inc = strip (lines ! (cursor s + 2)) \<and>
         municipality inc = strip (lines ! (cursor s + 3)) \<and>
         raw_timestamp inc = strip (lines ! (cursor s + 4)) \<and>
         station inc = strip (lines ! (cursor s + 5)) \<and>
         category inc = or_unknown (current_category s) \<and>
         comments_url inc =
           (case incident_links (strip (lines ! cursor s)) of None \<Rightarrow> [] | Some u \<Rightarrow> u) \<and>
         units_on_scene inc = fst (get_units_on_scene E (comments_url inc) (history s))"
proof -
  let ?url = "case incident_links (strip (lines ! cursor s)) of None \<Rightarrow> [] | Some u \<Rightarrow> u"
  let ?inc =
    "\<lparr>timestamp = dt,
      inc_id = strip (lines ! cursor s),
      location = strip (lines ! (cursor s + 2)),
      municipality = strip (lines ! (cursor s + 3)),
      inc_type = strip (lines ! (cursor s + 1)),
      category = or_unknown (current_category s),
      station = strip (lines ! (cursor s + 5)),
      description =
        strip (lines ! (cursor s + 2)) @ '' | '' @ strip (lines ! (cursor s + 3))
          @ '' | '' @ strip (lines ! (cursor s + 1)) @ '' | ''
          @ or_unknown (current_category s) @ '' | Stn ''
          @ strip (lines ! (cursor s + 5)),
      raw_timestamp = strip (lines ! (cursor s + 4)),
      comments_url = ?url,
      units_on_scene = fst (get_units_on_scene E ?url (history s))\<rparr>"
  show ?thesis
    using assms(3-5) unfolding loop_body_block [OF assms(1,2)]
    by (intro exI [of _ ?inc]) (simp add: Let_def)
qed

lemma loop_body_drop:
  assumes "id_re_match (lines ! cursor s)" and "cursor s + 5 < length lines"
    and "\<not> ts_re_match (strip (lines ! (cursor s + 4))) \<or>
         strptime (strip (lines ! (cursor s + 4))) = Inl ValueError \<or>
         (\<exists>dt. strptime (strip (lines ! (cursor s + 4))) = Inr dt \<and> dt < cutoff)"
  shows "loop_body E incident_links cutoff lines s = Next (s\<lparr>cursor := cursor s + 6\<rparr>)"
  using assms(3) unfolding loop_body_block [OF assms(1,2)] by (auto simp: Let_def)

lemma scan_loop_Next:
  assumes "cursor s < length lines"
    and "loop_body E incident_links cutoff lines s = Next s'"
  shows "scan_loop E incident_links cutoff lines s = scan_loop E incident_links cutoff lines s'"
  using assms by (subst scan_loop.simps) simp

lemma scan_loop_Break:
  assumes "cursor s < length lines"
    and "loop_body E incident_links cutoff lines s = Break s'"
  shows "scan_loop E incident_links cutoff lines s = s'"
  using assms by (subst scan_loop.simps) simp

section \<open>Blocks\<close>

text \<open>
  Claim C2. When the cursor stands on a line of the incident-ID shape with at least 5 more
  lines following, and the time stamp line of that block (its fifth line, which the code
  trims before it tests it) fails the strict date-time shape or does not parse as a
  calendar date-time, the pass emits nothing and changes nothing but the cursor, which
  moves on by exactly 6: the scan goes on behind the block, and no line inside it is read
  as the start of a block.
\<close>

theorem bad_timestamp_block_dropped:
  assumes "id_re_match (lines ! cursor s)" and "cursor s + 5 < length lines"
    and "\<not> ts_re_match (strip (lines ! (cursor s + 4))) \<or>
         strptime (strip (lines ! (cursor s + 4))) = Inl ValueError"
  shows "loop_body E incident_links cutoff lines s = Next (s\<lparr>cursor := cursor s + 6\<rparr>) \<and>
         scan_loop E incident_links cutoff lines s =
           scan_loop E incident_links cutoff lines (s\<lparr>cursor := cursor s + 6\<rparr>)"
proof -
  have body: "loop_body E incident_links cutoff lines s = Next (s\<lparr>cursor := cursor s + 6\<rparr>)"
    using assms by (intro loop_body_drop) auto
  moreover from assms(2) have "cursor s < length lines"
    by simp
  ultimately show ?thesis
    by (simp add: scan_loop_Next)
qed

theorem bad_timestamp_block_dropped_witness:
  "loop_body env_down Map.empty (example_now - hours 8) lines_bad_shape (start_state []) =
     Next ((start_state [])\<lparr>cursor := 6\<rparr>) \<and>
   incidents (scan_loop env_down Map.empty (example_now - hours 8) lines_bad_shape
     (start_state [])) = [] \<and>
   loop_body env_down Map.empty (example_now - hours 8) lines_bad_date (start_state []) =
     Next ((start_state [])\<lparr>cursor := 6\<rparr>)"
  using bad_timestamp_block_dropped
      [of lines_bad_shape "start_state []" env_down Map.empty "example_now - hours 8"]
    bad_timestamp_block_dropped
      [of lines_bad_date "start_state []" env_down Map.empty "example_now - hours 8"]
  by (simp add: lines_bad_shape_def lines_bad_date_def eval_defs)

section \<open>A comments page that cannot be fetched\<close>



section \<open>The end of the scan\<close>

lemma loop_body_Break_same:
  assumes "loop_body E incident_links cutoff lines s = Break s'"
  shows "s' = s"
proof (cases "id_re_match (lines ! cursor s)")
  case False
  from assms show ?thesis
    unfolding loop_body_not_id [OF False] by (simp split: if_splits)
next
  case True
  show ?thesis
  proof (cases "cursor s + 5 < length lines")
    case False
    with True assms show ?thesis by (simp add: loop_body_break)
  next
    case len: True
    from assms show ?thesis
      unfolding loop_body_block [OF True len]
      by (simp add: Let_def split: if_splits sum.splits)
  qed
qed

lemma loop_body_Next_cursor:
  assumes "loop_body E incident_links cutoff lines s = Next s'"
  shows "cursor s' = cursor s + 1 \<or> cursor s' = cursor s + 6"
proof (cases "id_re_match (lines ! cursor s)")
  case False
  from assms show ?thesis
    unfolding loop_body_not_id [OF False] by (auto split: if_splits)
next
  case True
  show ?thesis
  proof (cases "cursor s + 5 < length lines")
    case False
    with True assms show ?thesis by (simp add: loop_body_break)
  next
    case len: True
    from assms show ?thesis
      unfolding loop_body_block [OF True len]
      by (auto simp: Let_def split: if_splits sum.splits)
  qed
qed

lemma scan_iter_enough:
  "length lines - cursor s \<le> n \<Longrightarrow>
     scan_iter n E incident_links cutoff lines s =
       Some (scan_loop E incident_links cutoff lines s)"
proof (induction n arbitrary: s)
  case 0
  then show ?case by simp
next
  case (Suc n)
  show ?case
  proof (cases "cursor s < length lines")
    case False
    then show ?thesis by simp
  next
    case True
    show ?thesis
    proof (cases "loop_body E incident_links cutoff lines s")
      case (Break s')
      with True show ?thesis by (simp add: scan_loop_Break)
    next
      case (Next s')
      from loop_body_Next_cursor [OF Next] Suc.prems True
      have "length lines - cursor s' \<le> n" by auto
      from Suc.IH [OF this] Next True show ?thesis
        by (simp add: scan_loop_Next)
    qed
  qed
qed

text \<open>
  Claim C9. Every pass through the body either ends the scan, leaving the state as it is,
  or moves the cursor forward. On a line of the incident-ID shape with fewer than 6 lines
  left, itself included, the scan stops at once and what it has so far is its result: the
  tail yields nothing. The scan of any list of lines ends within as many passes as there
  are lines from the cursor on.
\<close>

theorem scan_terminates:
  "(cursor s < length lines \<longrightarrow>
      loop_body E incident_links cutoff lines s = Break s \<or>
      (\<exists>s'. loop_body E incident_links cutoff lines s = Next s' \<and> cursor s < cursor s')) \<and>
   (cursor s < length lines \<and> id_re_match (lines ! cursor s) \<and> length lines < cursor s + 6 \<longrightarrow>
      loop_body E incident_links cutoff lines s = Break s \<and>
      scan_loop E incident_links cutoff lines s = s) \<and>
   scan_iter (length lines - cursor s) E incident_links cutoff lines s =
     Some (scan_loop E incident_links cutoff lines s)"
proof -
  have step: "loop_body E incident_links cutoff lines s = Break s \<or>
      (\<exists>s'. loop_body E incident_links cutoff lines s = Next s' \<and> cursor s < cursor s')"
  proof (cases "loop_body E incident_links cutoff lines s")
    case (Break s')
    with loop_body_Break_same [OF Break] show ?thesis by simp
  next
    case (Next s')
    with loop_body_Next_cursor [OF Next] show ?thesis by auto
  qed
  have stop: "loop_body E incident_links cutoff lines s = Break s \<and>
      scan_loop E incident_links cutoff lines s = s"
    if "cursor s < length lines" "id_re_match (lines ! cursor s)" "length lines < cursor s + 6"
  proof -
    from that have "loop_body E incident_links cutoff lines s = Break s"
      by (intro loop_body_break) auto
    with that(1) show ?thesis by (simp add: scan_loop_Break)
  qed
  from step stop scan_iter_enough [of lines s "length lines - cursor s" E incident_links cutoff]
  show ?thesis by blast
qed

theorem scan_terminates_witness:
  "loop_body env_down Map.empty (example_now - hours 8) lines_bad_shape
     ((start_state [])\<lparr>cursor := 6\<rparr>) = Break ((start_state [])\<lparr>cursor := 6\<rparr>) \<and>
   scan_loop env_down Map.empty (example_now - hours 8) lines_bad_shape
     ((start_state [])\<lparr>cursor := 6\<rparr>) = (start_state [])\<lparr>cursor := 6\<rparr> \<and>
   scan_iter 7 env_down Map.empty (example_now - hours 8) lines_bad_shape (start_state []) =
     Some ((start_state [])\<lparr>cursor := 6\<rparr>)"
proof -
  have len: "length lines_bad_shape - cursor (start_state []) = 7"
    by (simp add: lines_bad_shape_def start_state_def)
  have val: "scan_loop env_down Map.empty (example_now - hours 8) lines_bad_shape (start_state []) =
      (start_state [])\<lparr>cursor := 6\<rparr>"
    by (simp add: lines_bad_shape_def eval_defs)
  have "scan_iter (length lines_bad_shape - cursor (start_state [])) env_down Map.empty
      (example_now - hours 8) lines_bad_shape (start_state []) =
      Some (scan_loop env_down Map.empty (example_now - hours 8) lines_bad_shape (start_state []))"
    using scan_terminates
      [of "start_state []" lines_bad_shape env_down Map.empty "example_now - hours 8"]
    by blast
  then have iter: "scan_iter 7 env_down Map.empty (example_now - hours 8) lines_bad_shape
      (start_state []) = Some ((start_state [])\<lparr>cursor := 6\<rparr>)"
    unfolding len val .
  have "loop_body env_down Map.empty (example_now - hours 8) lines_bad_shape
     ((start_state [])\<lparr>cursor := 6\<rparr>) = Break ((start_state [])\<lparr>cursor := 6\<rparr>) \<and>
   scan_loop env_down Map.empty (example_now - hours 8) lines_bad_shape
     ((start_state [])\<lparr>cursor := 6\<rparr>) = (start_state [])\<lparr>cursor := 6\<rparr>"
    using scan_terminates
      [of "(start_state [])\<lparr>cursor := 6\<rparr>" lines_bad_shape env_down Map.empty
        "example_now - hours 8"]
    by (simp add: lines_bad_shape_def eval_defs)
  with iter show ?thesis by simp
qed

section \<open>A pass and the result of \<open>get_incidents\<close>\<close>

lemma scan_loop_steps:
  "scan_loop E incident_links cutoff lines (scan_steps n E incident_links cutoff lines s) =
     scan_loop E incident_links cutoff lines s"
proof (induction n arbitrary: s)
  case 0
  show ?case by simp
next
  case (Suc n)
  show ?case
  proof (cases "cursor s < length lines")
    case False
    then show ?thesis by simp
  next
    case True
    show ?thesis
    proof (cases "loop_body E incident_links cutoff lines s")
      case (Break s')
      with True loop_body_Break_same [OF Break] show ?thesis by simp
    next
      case (Next s')
      with True Suc.IH [of s'] show ?thesis by (simp add: scan_loop_Next)
    qed
  qed
qed

lemma scan_loop_incidents_prefix:
  "prefix (incidents s) (incidents (scan_loop E incident_links cutoff lines s))"
proof -
  let ?I = "\<lambda>s'. prefix (incidents s) (incidents s')"
  show ?thesis
  proof (rule scan_loop_invariant [where I = ?I])
    show "?I s" by simp
  next
    fix s1 s2
    assume "?I s1" and "cursor s1 < length lines"
      and body: "loop_body E incident_links cutoff lines s1 = Next s2 \<or>
        loop_body E incident_links cutoff lines s1 = Break s2"
    from loop_body_effect [OF body] obtain new where "incidents s2 = incidents s1 @ new"
      by blast
    with \<open>?I s1\<close> show "?I s2" by (auto elim: prefix_order.trans)
  qed
qed

lemma get_incidents_page:
  assumes "http_get E log URL = Page anchors text_lines"
  shows "fst (get_incidents E log) =
     incidents (scan_loop E (links_loop E anchors Map.empty)
       (datetime_now E (log @ [Http_get URL]) - hours 8) (nonblank_lines text_lines)
       (start_state (log @ [Http_get URL])))"
  using assms by (simp add: get_incidents_def Let_def start_state_def)

text \<open>The result of \<open>get_incidents\<close> is what the loop makes of any state that it passes
  through, and holds what the loop has emitted by then.\<close>

lemma get_incidents_reached:
  assumes "http_get E log URL = Page anchors text_lines"
    and "lines = nonblank_lines text_lines"
    and "incident_links = links_loop E anchors Map.empty"
    and "cutoff = datetime_now E (log @ [Http_get URL]) - hours 8"
    and "s = scan_steps n E incident_links cutoff lines (start_state (log @ [Http_get URL]))"
  shows "fst (get_incidents E log) = incidents (scan_loop E incident_links cutoff lines s)"
  unfolding get_incidents_page [OF assms(1)] assms(2-5) scan_loop_steps ..

lemma get_incidents_after_pass:
  assumes "http_get E log URL = Page anchors text_lines"
    and "lines = nonblank_lines text_lines"
    and "incident_links = links_loop E anchors Map.empty"
    and "cutoff = datetime_now E (log @ [Http_get URL]) - hours 8"
    and "s = scan_steps n E incident_links cutoff lines (start_state (log @ [Http_get URL]))"
    and "cursor s < length lines"
    and "loop_body E incident_links cutoff lines s = Next s'"
  shows "fst (get_incidents E log) = incidents (scan_loop E incident_links cutoff lines s')"
    and "prefix (incidents s') (fst (get_incidents E log))"
proof -
  show eq: "fst (get_incidents E log) = incidents (scan_loop E incident_links cutoff lines s')"
    using get_incidents_reached [OF assms(1-5)] scan_loop_Next [OF assms(6,7)] by simp
  show "prefix (incidents s') (fst (get_incidents E log))"
    unfolding eq by (rule scan_loop_incidents_prefix)
qed

lemma loop_body_recent:
  assumes "loop_body E incident_links cutoff lines s = Next s' \<or>
           loop_body E incident_links cutoff lines s = Break s'"
  shows "\<exists>new. incidents s' = incidents s @ new \<and> (\<forall>inc\<in>set new. cutoff \<le> timestamp inc)"
proof (cases "id_re_match (lines ! cursor s)")
  case False
  from assms show ?thesis
    unfolding loop_body_not_id [OF False] by (auto split: if_splits)
next
  case True
  show ?thesis
  proof (cases "cursor s + 5 < length lines")
    case False
    with True have "loop_body E incident_links cutoff lines s = Break s"
      by (simp add: loop_body_break)
    with assms show ?thesis by auto
  next
    case len: True
    from assms show ?thesis
      unfolding loop_body_block [OF True len]
      by (auto simp: Let_def split: if_splits sum.splits)
  qed
qed

lemma scan_loop_recent:
  assumes "\<forall>inc\<in>set (incidents s). cutoff \<le> timestamp inc"
  shows "\<forall>inc\<in>set (incidents (scan_loop E incident_links cutoff lines s)).
           cutoff \<le> timestamp inc"
proof (rule scan_loop_invariant [where I = "\<lambda>s. \<forall>inc\<in>set (incidents s). cutoff \<le> timestamp inc"])
  show "\<forall>inc\<in>set (incidents s). cutoff \<le> timestamp inc" by (rule assms)
next
  fix s1 s2
  assume I: "\<forall>inc\<in>set (incidents s1). cutoff \<le> timestamp inc" and "cursor s1 < length lines"
    and body: "loop_body E incident_links cutoff lines s1 = Next s2 \<or>
      loop_body E incident_links cutoff lines s1 = Break s2"
  from loop_body_recent [OF body] I show "\<forall>inc\<in>set (incidents s2). cutoff \<le> timestamp inc"
    by auto
qed

lemma get_incidents_recent:
  "\<forall>inc\<in>set (fst (get_incidents E log)).
     datetime_now E (log @ [Http_get URL]) - hours 8 \<le> timestamp inc"
proof (cases "http_get E log URL")
  case Fetch_failed
  then show ?thesis by (simp add: get_incidents_def)
next
  case (Page anchors text_lines)
  show ?thesis
    unfolding get_incidents_page [OF Page]
    by (rule scan_loop_recent) (simp add: start_state_def)
qed

section \<open>The block that is emitted\<close>

text \<open>
  Claim C1, as amended. Let \<open>get_incidents\<close> have fetched a page, and let its scan, with
  the cut-off 8 hours before the time it read, have brought the cursor onto a line of the
  incident-ID shape with at least 5 more lines following. If the time stamp line of that
  block (its fifth line, trimmed) has the strict \<open>MM-DD-YYYY HH:MM:SS\<close> shape and parses to
  a date-time that is not earlier than the cut-off, the pass emits exactly one incident,
  whose id, type, location, municipality, raw time stamp and station are the six lines,
  trimmed; the cursor moves on by exactly 6; and the incident is part of what
  \<open>get_incidents\<close> returns.
\<close>

theorem block_emits_one_incident:
  assumes "http_get E log URL = Page anchors text_lines"
    and "lines = nonblank_lines text_lines"
    and "incident_links = links_loop E anchors Map.empty"
    and "cutoff = datetime_now E (log @ [Http_get URL]) - hours 8"
    and "s = scan_steps n E incident_links cutoff lines (start_state (log @ [Http_get URL]))"
    and "id_re_match (lines ! cursor s)" and "cursor s + 5 < length lines"
    and "ts_re_match (strip (lines ! (cursor s + 4)))"
    and "strptime (strip (lines ! (cursor s + 4))) = Inr dt"
    and "cutoff \<le> dt"
  shows "\<exists>inc h. loop_body E incident_links cutoff lines s =
           Next (s\<lparr>cursor := cursor s + 6, incidents := incidents s @ [inc], history := h\<rparr>) \<and>
         inc_id inc = strip (lines ! cursor s) \<and>
         inc_type inc = strip (lines ! (cursor s + 1)) \<and>
         location inc = strip (lines ! (cursor s + 2)) \<and>
         municipality inc = strip (lines ! (cursor s + 3)) \<and>
         raw_timestamp inc = strip (lines ! (cursor s + 4)) \<and>
         station inc = strip (lines ! (cursor s + 5)) \<and>
         timestamp inc = dt \<and>
         prefix (incidents s @ [inc]) (fst (get_incidents E log))"
proof -
  from assms(10) have "\<not> dt < cutoff" by simp
  from loop_body_emit [OF assms(6-9) this, of E incident_links] obtain inc where
    body: "loop_body E incident_links cutoff lines s =
           Next (s\<lparr>cursor := cursor s + 6, incidents := incidents s @ [inc],
                   history := snd (get_units_on_scene E (comments_url inc) (history s))\<rparr>)"
    and fields: "inc_id inc = strip (lines ! cursor s)"
      "inc_type inc = strip (lines ! (cursor s + 1))"
      "location inc = strip (lines ! (cursor s + 2))"
      "municipality inc = strip (lines ! (cursor s + 3))"
      "raw_timestamp inc = strip (lines ! (cursor s + 4))"
      "station inc = strip (lines ! (cursor s + 5))"
      "timestamp inc = dt"
    by blast
  from assms(7) have "cursor s < length lines" by simp
  from get_incidents_after_pass(2) [OF assms(1-5) this body]
  have "prefix (incidents s @ [inc]) (fst (get_incidents E log))" by simp
  with body fields show ?thesis by blast
qed

theorem block_emits_one_incident_witness:
  "scan_steps (Suc (Suc 0)) (env_page example_page_lines) Map.empty (example_now - hours 8)
     example_page_lines (start_state [Http_get URL]) =
     \<lparr>cursor = 2, current_category = Some ''FIRE'', incidents = [], history = [Http_get URL]\<rparr> \<and>
   (\<exists>inc h. loop_body (env_page example_page_lines) Map.empty (example_now - hours 8)
       example_page_lines
       \<lparr>cursor = 2, current_category = Some ''FIRE'', incidents = [], history = [Http_get URL]\<rparr> =
       Next \<lparr>cursor = 8, current_category = Some ''FIRE'', incidents = [inc], history = h\<rparr> \<and>
     inc_id inc = ''F25065066'' \<and> inc_type inc = ''FIRE ALARM'' \<and>
     location inc = ''LANCASTER AVE & COUNTRY CLUB DR'' \<and>
     municipality inc = ''East Caln Township'' \<and>
     raw_timestamp inc = ''11-29-2025 00:31:04'' \<and> station inc = ''46'' \<and>
     timestamp inc = mk_datetime 2025 11 29 0 31 4 \<and>
     prefix [inc] (fst (get_incidents (env_page example_page_lines) []))) \<and>
   fst (get_incidents (env_page example_page_lines) []) = [incident_east]"
proof -
  let ?E = "env_page example_page_lines"
  have page: "http_get ?E [] URL = Page [] example_page_lines"
    by (simp add: env_page_def)
  have lines: "example_page_lines = nonblank_lines example_page_lines"
    by (simp add: nonblank_lines_def example_page_lines_def strip_def is_space_def)
  have links: "Map.empty = links_loop ?E [] Map.empty"
    by simp
  have cutoff: "example_now - hours 8 = datetime_now ?E ([] @ [Http_get URL]) - hours 8"
    by (simp add: env_page_def)
  have steps: "scan_steps (Suc (Suc 0)) ?E Map.empty (example_now - hours 8)
     example_page_lines (start_state [Http_get URL]) =
     \<lparr>cursor = 2, current_category = Some ''FIRE'', incidents = [], history = [Http_get URL]\<rparr>"
    by (simp add: example_page_lines_def eval_defs)
  have result: "fst (get_incidents ?E []) = [incident_east]"
    unfolding get_incidents_page [OF page] lines [symmetric]
    by (simp add: env_page_def example_page_lines_def incident_east_def eval_defs)
  have s: "\<lparr>cursor = 2, current_category = Some ''FIRE'', incidents = [], history = [Http_get URL]\<rparr> =
      scan_steps (Suc (Suc 0)) ?E Map.empty (example_now - hours 8) example_page_lines
        (start_state ([] @ [Http_get URL]))"
    using steps by simp
  from block_emits_one_incident
    [OF page lines links cutoff s, of "mk_datetime 2025 11 29 0 31 4"]
  have "\<exists>inc h. loop_body ?E Map.empty (example_now - hours 8) example_page_lines
       \<lparr>cursor = 2, current_category = Some ''FIRE'', incidents = [], history = [Http_get URL]\<rparr> =
       Next \<lparr>cursor = 8, current_category = Some ''FIRE'', incidents = [inc], history = h\<rparr> \<and>
     inc_id inc = ''F25065066'' \<and> inc_type inc = ''FIRE ALARM'' \<and>
     location inc = ''LANCASTER AVE & COUNTRY CLUB DR'' \<and>
     municipality inc = ''East Caln Township'' \<and>
     raw_timestamp inc = ''11-29-2025 00:31:04'' \<and> station inc = ''46'' \<and>
     timestamp inc = mk_datetime 2025 11 29 0 31 4 \<and>
     prefix [inc] (fst (get_incidents ?E []))"
    by (simp add: example_page_lines_def eval_defs)
  with steps result show ?thesis by blast
qed

text \<open>
  The claim as it was stated fails twice. A block whose time stamp is well-formed but one
  second older than the cut-off is dropped. And a line of the incident-ID shape that lies
  inside a consumed block is never under the cursor: the second line of \<open>lines_overlap\<close>
  has 5 more lines following and a recent, well-formed time stamp on its fifth line, and
  no incident with its id is returned.
\<close>

theorem block_emits_one_incident_counterexample:
  "id_re_match (lines_stale ! 0) \<and> 0 + 5 < length lines_stale \<and>
   ts_re_match (lines_stale ! 4) \<and>
   strptime (lines_stale ! 4) = Inr (mk_datetime 2025 11 28 23 59 59) \<and>
   nonblank_lines lines_stale = lines_stale \<and>
   fst (get_incidents (env_page lines_stale) []) = [] \<and>
   id_re_match (lines_overlap ! 1) \<and> 1 + 5 < length lines_overlap \<and>
   ts_re_match (lines_overlap ! (1 + 4)) \<and>
   strptime (lines_overlap ! (1 + 4)) = Inr (mk_datetime 2025 11 29 0 45 0) \<and>
   datetime_now (env_page lines_overlap) [Http_get URL] - hours 8
     \<le> mk_datetime 2025 11 29 0 45 0 \<and>
   nonblank_lines lines_overlap = lines_overlap \<and>
   map inc_id (fst (get_incidents (env_page lines_overlap) [])) = [''F25065066'']"
  by (simp add: lines_stale_def lines_overlap_def env_page_def get_incidents_def
        nonblank_lines_def eval_defs)

section \<open>The recency window\<close>

text \<open>
  Claim C4. Let \<open>get_incidents\<close> have fetched a page and read the time \<open>now\<close>; its scan
  runs with the cut-off \<open>now - hours 8\<close>, on the wall clock of America/New_York. No incident
  that it returns is older than the cut-off. A well-formed block under the cursor whose
  time stamp is the cut-off exactly is emitted and returned; one whose time stamp is
  earlier, for instance by one second, is dropped, and the result is what the scan makes
  of the lines behind it. So a block is emitted exactly when its time stamp is at or after
  the cut-off.
\<close>

theorem recency_boundary_inclusive:
  assumes "http_get E log URL = Page anchors text_lines"
    and "lines = nonblank_lines text_lines"
    and "incident_links = links_loop E anchors Map.empty"
    and "now = datetime_now E (log @ [Http_get URL])"
    and "s = scan_steps n E incident_links (now - hours 8) lines
           (start_state (log @ [Http_get URL]))"
    and "id_re_match (lines ! cursor s)" and "cursor s + 5 < length lines"
    and "ts_re_match (strip (lines ! (cursor s + 4)))"
    and "strptime (strip (lines ! (cursor s + 4))) = Inr dt"
  shows "(\<forall>inc\<in>set (fst (get_incidents E log)). now - hours 8 \<le> timestamp inc) \<and>
     (dt = now - hours 8 \<longrightarrow>
        (\<exists>inc h. loop_body E incident_links (now - hours 8) lines s =
           Next (s\<lparr>cursor := cursor s + 6, incidents := incidents s @ [inc], history := h\<rparr>) \<and>
           timestamp inc = dt \<and> raw_timestamp inc = strip (lines ! (cursor s + 4)) \<and>
           inc \<in> set (fst (get_incidents E log)))) \<and>
     (dt < now - hours 8 \<longrightarrow>
        loop_body E incident_links (now - hours 8) lines s = Next (s\<lparr>cursor := cursor s + 6\<rparr>) \<and>
        fst (get_incidents E log) =
          incidents (scan_loop E incident_links (now - hours 8) lines (s\<lparr>cursor := cursor s + 6\<rparr>))) \<and>
     (dt = now - hours 8 - seconds 1 \<longrightarrow>
        loop_body E incident_links (now - hours 8) lines s = Next (s\<lparr>cursor := cursor s + 6\<rparr>)) \<and>
     ((\<exists>inc h. loop_body E incident_links (now - hours 8) lines s =
           Next (s\<lparr>cursor := cursor s + 6, incidents := incidents s @ [inc], history := h\<rparr>))
        \<longleftrightarrow> now - hours 8 \<le> dt)"
proof -
  have cutoff: "now - hours 8 = datetime_now E (log @ [Http_get URL]) - hours 8"
    by (simp add: assms(4))
  have cur: "cursor s < length lines"
    using assms(7) by simp
  have all: "\<forall>inc\<in>set (fst (get_incidents E log)). now - hours 8 \<le> timestamp inc"
    unfolding cutoff by (rule get_incidents_recent)
  have keep: "\<exists>inc h. loop_body E incident_links (now - hours 8) lines s =
      Next (s\<lparr>cursor := cursor s + 6, incidents := incidents s @ [inc], history := h\<rparr>) \<and>
      timestamp inc = dt \<and> raw_timestamp inc = strip (lines ! (cursor s + 4)) \<and>
      inc \<in> set (fst (get_incidents E log))" if "now - hours 8 \<le> dt"
  proof -
    from that have "\<not> dt < now - hours 8" by simp
    from loop_body_emit [OF assms(6-9) this, of E incident_links] obtain inc where
      body: "loop_body E incident_links (now - hours 8) lines s =
           Next (s\<lparr>cursor := cursor s + 6, incidents := incidents s @ [inc],
                   history := snd (get_units_on_scene E (comments_url inc) (history s))\<rparr>)"
      and fields: "timestamp inc = dt" "raw_timestamp inc = strip (lines ! (cursor s + 4))"
      by blast
    from get_incidents_after_pass(2) [OF assms(1-3) cutoff assms(5) cur body]
    have "prefix (incidents s @ [inc]) (fst (get_incidents E log))" by simp
    then have "set (incidents s @ [inc]) \<subseteq> set (fst (get_incidents E log))"
      by (rule set_mono_prefix)
    then have "inc \<in> set (fst (get_incidents E log))" by simp
    with body fields show ?thesis by blast
  qed
  have drop: "loop_body E incident_links (now - hours 8) lines s = Next (s\<lparr>cursor := cursor s + 6\<rparr>) \<and>
      fst (get_incidents E log) =
        incidents (scan_loop E incident_links (now - hours 8) lines (s\<lparr>cursor := cursor s + 6\<rparr>))"
    if "dt < now - hours 8"
  proof -
    have body: "loop_body E incident_links (now - hours 8) lines s = Next (s\<lparr>cursor := cursor s + 6\<rparr>)"
      using assms(6-9) that by (intro loop_body_drop) auto
    from get_incidents_after_pass(1) [OF assms(1-3) cutoff assms(5) cur body] body
    show ?thesis by simp
  qed
  have differ: "s\<lparr>cursor := cursor s + 6\<rparr> \<noteq>
      s\<lparr>cursor := cursor s + 6, incidents := incidents s @ [inc], history := h\<rparr>" for inc h
  proof
    assume "s\<lparr>cursor := cursor s + 6\<rparr> =
      s\<lparr>cursor := cursor s + 6, incidents := incidents s @ [inc], history := h\<rparr>"
    then have "incidents (s\<lparr>cursor := cursor s + 6\<rparr>) =
      incidents (s\<lparr>cursor := cursor s + 6, incidents := incidents s @ [inc], history := h\<rparr>)"
      by (rule arg_cong)
    then show False by simp
  qed
  have iff: "(\<exists>inc h. loop_body E incident_links (now - hours 8) lines s =
      Next (s\<lparr>cursor := cursor s + 6, incidents := incidents s @ [inc], history := h\<rparr>))
      \<longleftrightarrow> now - hours 8 \<le> dt"
  proof (cases "now - hours 8 \<le> dt")
    case True
    with keep show ?thesis by blast
  next
    case False
    then have "dt < now - hours 8" by simp
    from drop [OF this] differ False show ?thesis by auto
  qed
  have "seconds 1 > 0" by (simp add: seconds_def)
  with all keep drop iff show ?thesis by auto
qed

theorem recency_boundary_inclusive_witness:
  "strptime (strip (lines_boundary ! 4)) = Inr (example_now - hours 8) \<and>
   (\<exists>inc. fst (get_incidents (env_page lines_boundary) []) = [inc] \<and>
      timestamp inc = example_now - hours 8 \<and> raw_timestamp inc = ''11-29-2025 00:00:00'') \<and>
   strptime (strip (lines_stale ! 4)) = Inr (example_now - hours 8 - seconds 1) \<and>
   fst (get_incidents (env_page lines_stale) []) = []"
proof -
  have pb: "http_get (env_page lines_boundary) [] URL = Page [] lines_boundary"
    and ps: "http_get (env_page lines_stale) [] URL = Page [] lines_stale"
    by (simp_all add: env_page_def)
  have nb: "lines_boundary = nonblank_lines lines_boundary"
    and ns: "lines_stale = nonblank_lines lines_stale"
    by (simp_all add: nonblank_lines_def lines_boundary_def lines_stale_def strip_def is_space_def)
  have now: "example_now = datetime_now (env_page lines_boundary) ([] @ [Http_get URL])"
    "example_now = datetime_now (env_page lines_stale) ([] @ [Http_get URL])"
    by (simp_all add: env_page_def)
  have sb: "start_state ([] @ [Http_get URL]) =
      scan_steps 0 (env_page lines_boundary) Map.empty (example_now - hours 8) lines_boundary
        (start_state ([] @ [Http_get URL]))"
    and ss: "start_state ([] @ [Http_get URL]) =
      scan_steps 0 (env_page lines_stale) Map.empty (example_now - hours 8) lines_stale
        (start_state ([] @ [Http_get URL]))"
    by simp_all
  have lb: "Map.empty = links_loop (env_page lines_boundary) [] Map.empty"
    and ls: "Map.empty = links_loop (env_page lines_stale) [] Map.empty"
    by simp_all
  have tb: "strptime (strip (lines_boundary ! 4)) = Inr (example_now - hours 8)"
    and ts: "strptime (strip (lines_stale ! 4)) = Inr (example_now - hours 8 - seconds 1)"
    by (simp_all add: lines_boundary_def lines_stale_def eval_defs)
  have rb: "\<exists>inc. fst (get_incidents (env_page lines_boundary) []) = [inc] \<and>
      timestamp inc = example_now - hours 8 \<and> raw_timestamp inc = ''11-29-2025 00:00:00''"
    using recency_boundary_inclusive
      [OF pb nb lb now(1) sb, of "example_now - hours 8"]
    unfolding get_incidents_page [OF pb] nb [symmetric]
    by (simp add: env_page_def lines_boundary_def eval_defs)
  have rs: "fst (get_incidents (env_page lines_stale) []) = []"
    using recency_boundary_inclusive
      [OF ps ns ls now(2) ss, of "example_now - hours 8 - seconds 1"]
    unfolding get_incidents_page [OF ps] ns [symmetric]
    by (simp add: env_page_def lines_stale_def eval_defs)
  from tb ts rb rs show ?thesis by blast
qed

section \<open>Categories\<close>

lemma or_unknown_known:
  "c \<in> {None, Some ''FIRE'', Some ''EMS'', Some ''TRAFFIC''} \<Longrightarrow>
     or_unknown c \<in> {''FIRE'', ''EMS'', ''TRAFFIC'', ''UNKNOWN''}"
  by (auto simp: or_unknown_def)

lemma scan_loop_categories:
  assumes "current_category s \<in> {None, Some ''FIRE'', Some ''EMS'', Some ''TRAFFIC''}"
    and "\<forall>inc\<in>set (incidents s). category inc \<in> {''FIRE'', ''EMS'', ''TRAFFIC'', ''UNKNOWN''}"
  shows "\<forall>inc\<in>set (incidents (scan_loop E incident_links cutoff lines s)).
           category inc \<in> {''FIRE'', ''EMS'', ''TRAFFIC'', ''UNKNOWN''}"
proof -
  let ?I = "\<lambda>s. current_category s \<in> {None, Some ''FIRE'', Some ''EMS'', Some ''TRAFFIC''} \<and>
    (\<forall>inc\<in>set (incidents s). category inc \<in> {''FIRE'', ''EMS'', ''TRAFFIC'', ''UNKNOWN''})"
  have "?I (scan_loop E incident_links cutoff lines s)"
  proof (rule scan_loop_invariant [where I = ?I])
    show "?I s" using assms by simp
  next
    fix s s'
    assume I: "?I s" and "cursor s < length lines"
      and body: "loop_body E incident_links cutoff lines s = Next s' \<or>
        loop_body E incident_links cutoff lines s = Break s'"
    from loop_body_category [OF body] I
    have cat: "current_category s' \<in> {None, Some ''FIRE'', Some ''EMS'', Some ''TRAFFIC''}"
      by (simp split: if_splits)
    from loop_body_effect [OF body] obtain new where
      new: "incidents s' = incidents s @ new"
        "\<forall>inc\<in>set new. category inc = or_unknown (current_category s)"
      by blast
    from I or_unknown_known [of "current_category s"]
    have "or_unknown (current_category s) \<in> {''FIRE'', ''EMS'', ''TRAFFIC'', ''UNKNOWN''}"
      by blast
    with new I have "\<forall>inc\<in>set (incidents s'). category inc \<in> {''FIRE'', ''EMS'', ''TRAFFIC'', ''UNKNOWN''}"
      by auto
    with cat show "?I s'" by simp
  qed
  then show ?thesis by simp
qed

lemma scan_loop_no_header:
  assumes "current_category s = None"
    and "\<forall>inc\<in>set (incidents s). category inc = ''UNKNOWN''"
    and "''Fire Incidents'' \<notin> set lines" "''EMS Incidents'' \<notin> set lines"
      "''Traffic Incidents'' \<notin> set lines"
  shows "\<forall>inc\<in>set (incidents (scan_loop E incident_links cutoff lines s)).
           category inc = ''UNKNOWN''"
proof -
  let ?I = "\<lambda>s. current_category s = None \<and> (\<forall>inc\<in>set (incidents s). category inc = ''UNKNOWN'')"
  have "?I (scan_loop E incident_links cutoff lines s)"
  proof (rule scan_loop_invariant [where I = ?I])
    show "?I s" using assms by simp
  next
    fix s s'
    assume I: "?I s" and len: "cursor s < length lines"
      and body: "loop_body E incident_links cutoff lines s = Next s' \<or>
        loop_body E incident_links cutoff lines s = Break s'"
    from len have "lines ! cursor s \<in> set lines" by simp
    with assms(3-5) have "lines ! cursor s \<noteq> ''Fire Incidents''"
      "lines ! cursor s \<noteq> ''EMS Incidents''" "lines ! cursor s \<noteq> ''Traffic Incidents''"
      by metis+
    with loop_body_category [OF body] I have cat: "current_category s' = None"
      by simp
    from loop_body_effect [OF body] obtain new where
      new: "incidents s' = incidents s @ new"
        "\<forall>inc\<in>set new. category inc = or_unknown (current_category s)"
      by blast
    with I have "\<forall>inc\<in>set (incidents s'). category inc = ''UNKNOWN''"
      by (auto simp: or_unknown_def)
    with cat show "?I s'" by simp
  qed
  then show ?thesis by simp
qed

lemma scan_steps_cursor:
  "cursor s \<le> cursor (scan_steps n E incident_links cutoff lines s)"
proof (induction n arbitrary: s)
  case 0
  show ?case by simp
next
  case (Suc n)
  show ?case
  proof (cases "cursor s < length lines")
    case False
    then show ?thesis by simp
  next
    case True
    show ?thesis
    proof (cases "loop_body E incident_links cutoff lines s")
      case (Break s')
      with True loop_body_Break_same [OF Break] show ?thesis by simp
    next
      case (Next s')
      from loop_body_Next_cursor [OF Next] have "cursor s \<le> cursor s'" by auto
      with Suc.IH [of s'] Next True show ?thesis by simp
    qed
  qed
qed

lemma scan_steps_Suc_Next:
  assumes "cursor s < length lines" and "loop_body E incident_links cutoff lines s = Next s'"
  shows "scan_steps (Suc k) E incident_links cutoff lines s =
     scan_steps k E incident_links cutoff lines s'"
  using assms by simp

lemma scan_steps_category:
  assumes "\<forall>k<n. cursor (scan_steps k E incident_links cutoff lines s) < length lines \<longrightarrow>
      lines ! cursor (scan_steps k E incident_links cutoff lines s) \<noteq> ''Fire Incidents'' \<and>
      lines ! cursor (scan_steps k E incident_links cutoff lines s) \<noteq> ''EMS Incidents'' \<and>
      lines ! cursor (scan_steps k E incident_links cutoff lines s) \<noteq> ''Traffic Incidents''"
  shows "current_category (scan_steps n E incident_links cutoff lines s) = current_category s"
  using assms
proof (induction n arbitrary: s)
  case 0
  show ?case by simp
next
  case (Suc n)
  show ?case
  proof (cases "cursor s < length lines")
    case False
    then show ?thesis by simp
  next
    case True
    show ?thesis
    proof (cases "loop_body E incident_links cutoff lines s")
      case (Break s')
      with True loop_body_Break_same [OF Break] show ?thesis by simp
    next
      case (Next s')
      from Suc.prems [rule_format, of 0] True
      have "lines ! cursor s \<noteq> ''Fire Incidents'' \<and> lines ! cursor s \<noteq> ''EMS Incidents'' \<and>
          lines ! cursor s \<noteq> ''Traffic Incidents''"
        by simp
      with loop_body_category [of E incident_links cutoff lines s s'] Next
      have first: "current_category s' = current_category s" by simp
      have "current_category (scan_steps n E incident_links cutoff lines s') = current_category s'"
      proof (rule Suc.IH, intro allI impI)
        fix k
        assume "k < n"
          and inside: "cursor (scan_steps k E incident_links cutoff lines s') < length lines"
        then have "Suc k < Suc n" by simp
        from Suc.prems [rule_format, OF this] inside
        show "lines ! cursor (scan_steps k E incident_links cutoff lines s') \<noteq> ''Fire Incidents'' \<and>
          lines ! cursor (scan_steps k E incident_links cutoff lines s') \<noteq> ''EMS Incidents'' \<and>
          lines ! cursor (scan_steps k E incident_links cutoff lines s') \<noteq> ''Traffic Incidents''"
          unfolding scan_steps_Suc_Next [OF True Next] by blast
      qed
      with first True Next show ?thesis by simp
    qed
  qed
qed

lemma scan_steps_enough:
  "length lines - cursor s \<le> n \<Longrightarrow>
     scan_steps n E incident_links cutoff lines s = scan_loop E incident_links cutoff lines s"
proof (induction n arbitrary: s)
  case 0
  then show ?case by simp
next
  case (Suc n)
  show ?case
  proof (cases "cursor s < length lines")
    case False
    then show ?thesis by simp
  next
    case True
    show ?thesis
    proof (cases "loop_body E incident_links cutoff lines s")
      case (Break s')
      with True show ?thesis by (simp add: scan_loop_Break)
    next
      case (Next s')
      from loop_body_Next_cursor [OF Next] Suc.prems True
      have "length lines - cursor s' \<le> n" by auto
      from Suc.IH [OF this] Next True show ?thesis
        by (simp add: scan_loop_Next)
    qed
  qed
qed

text \<open>
  Claim C3, as amended. A pass on the line \<open>EMS Incidents\<close> sets the category to EMS (and
  \<open>Fire Incidents\<close> to FIRE, \<open>Traffic Incidents\<close> to TRAFFIC). A pass on a block leaves the
  category as it is, whatever the five lines behind the ID line say: a header line inside
  a consumed block is a field of that block. Through any number of passes in which no
  line under the cursor is a section header the category stays, and an incident emitted
  then carries it: EMS after the scanner has read \<open>EMS Incidents\<close>, UNKNOWN when it has read
  no header since the start. What a pass of \<open>get_incidents\<close> emits is part of its result;
  every incident of the result has one of the four categories, never none, and all have
  UNKNOWN when the page has no header line.
\<close>

theorem category_follows_headers:
  "(lines ! cursor s = ''Fire Incidents'' \<longrightarrow>
      loop_body E incident_links cutoff lines s =
        Next (s\<lparr>current_category := Some ''FIRE'', cursor := cursor s + 1\<rparr>)) \<and>
   (lines ! cursor s = ''EMS Incidents'' \<longrightarrow>
      loop_body E incident_links cutoff lines s =
        Next (s\<lparr>current_category := Some ''EMS'', cursor := cursor s + 1\<rparr>)) \<and>
   (lines ! cursor s = ''Traffic Incidents'' \<longrightarrow>
      loop_body E incident_links cutoff lines s =
        Next (s\<lparr>current_category := Some ''TRAFFIC'', cursor := cursor s + 1\<rparr>)) \<and>
   (id_re_match (lines ! cursor s) \<and>
    (loop_body E incident_links cutoff lines s = Next s1 \<or>
     loop_body E incident_links cutoff lines s = Break s1) \<longrightarrow>
      current_category s1 = current_category s \<and>
      (cursor s + 5 < length lines \<longrightarrow> cursor s1 = cursor s + 6)) \<and>
   (s' = scan_steps n E incident_links cutoff lines s \<and>
    (\<forall>k<n. cursor (scan_steps k E incident_links cutoff lines s) < length lines \<longrightarrow>
       lines ! cursor (scan_steps k E incident_links cutoff lines s) \<noteq> ''Fire Incidents'' \<and>
       lines ! cursor (scan_steps k E incident_links cutoff lines s) \<noteq> ''EMS Incidents'' \<and>
       lines ! cursor (scan_steps k E incident_links cutoff lines s) \<noteq> ''Traffic Incidents'') \<and>
    (loop_body E incident_links cutoff lines s' = Next s'' \<or>
     loop_body E incident_links cutoff lines s' = Break s'') \<longrightarrow>
      current_category s' = current_category s \<and>
      (\<exists>new. incidents s'' = incidents s' @ new \<and>
         (\<forall>inc\<in>set new. category inc = or_unknown (current_category s)))) \<and>
   (length lines - cursor s \<le> n \<longrightarrow>
      scan_steps n E incident_links cutoff lines s = scan_loop E incident_links cutoff lines s) \<and>
   or_unknown None = ''UNKNOWN'' \<and> or_unknown (Some ''FIRE'') = ''FIRE'' \<and>
   or_unknown (Some ''EMS'') = ''EMS'' \<and> or_unknown (Some ''TRAFFIC'') = ''TRAFFIC'' \<and>
   (http_get E log URL = Page anchors text_lines \<and>
    lines = nonblank_lines text_lines \<and>
    incident_links = links_loop E anchors Map.empty \<and>
    cutoff = datetime_now E (log @ [Http_get URL]) - hours 8 \<and>
    s' = scan_steps n E incident_links cutoff lines (start_state (log @ [Http_get URL])) \<and>
    cursor s' < length lines \<and> loop_body E incident_links cutoff lines s' = Next s'' \<longrightarrow>
      prefix (incidents s'') (fst (get_incidents E log))) \<and>
   (\<forall>inc\<in>set (fst (get_incidents E log)).
      category inc \<in> {''FIRE'', ''EMS'', ''TRAFFIC'', ''UNKNOWN''}) \<and>
   (http_get E log URL = Page anchors text_lines \<and>
    ''Fire Incidents'' \<notin> set (nonblank_lines text_lines) \<and>
    ''EMS Incidents'' \<notin> set (nonblank_lines text_lines) \<and>
    ''Traffic Incidents'' \<notin> set (nonblank_lines text_lines) \<longrightarrow>
      (\<forall>inc\<in>set (fst (get_incidents E log)). category inc = ''UNKNOWN''))"
proof -
  have headers:
    "lines ! cursor s = ''Fire Incidents'' \<longrightarrow>
      loop_body E incident_links cutoff lines s =
        Next (s\<lparr>current_category := Some ''FIRE'', cursor := cursor s + 1\<rparr>)"
    "lines ! cursor s = ''EMS Incidents'' \<longrightarrow>
      loop_body E incident_links cutoff lines s =
        Next (s\<lparr>current_category := Some ''EMS'', cursor := cursor s + 1\<rparr>)"
    "lines ! cursor s = ''Traffic Incidents'' \<longrightarrow>
      loop_body E incident_links cutoff lines s =
        Next (s\<lparr>current_category := Some ''TRAFFIC'', cursor := cursor s + 1\<rparr>)"
    by (simp_all add: loop_body_def)
  have block: "current_category s1 = current_category s \<and>
      (cursor s + 5 < length lines \<longrightarrow> cursor s1 = cursor s + 6)"
    if idl: "id_re_match (lines ! cursor s)"
      and body: "loop_body E incident_links cutoff lines s = Next s1 \<or>
        loop_body E incident_links cutoff lines s = Break s1"
  proof -
    from loop_body_category [OF body] id_line_not_header [OF idl]
    have cat: "current_category s1 = current_category s" by simp
    have "cursor s1 = cursor s + 6" if len: "cursor s + 5 < length lines"
      using body unfolding loop_body_block [OF idl len]
      by (auto simp: Let_def split: if_splits sum.splits)
    with cat show ?thesis by simp
  qed
  have later: "current_category s' = current_category s \<and>
      (\<exists>new. incidents s'' = incidents s' @ new \<and>
         (\<forall>inc\<in>set new. category inc = or_unknown (current_category s)))"
    if s': "s' = scan_steps n E incident_links cutoff lines s"
      and free: "\<forall>k<n. cursor (scan_steps k E incident_links cutoff lines s) < length lines \<longrightarrow>
       lines ! cursor (scan_steps k E incident_links cutoff lines s) \<noteq> ''Fire Incidents'' \<and>
       lines ! cursor (scan_steps k E incident_links cutoff lines s) \<noteq> ''EMS Incidents'' \<and>
       lines ! cursor (scan_steps k E incident_links cutoff lines s) \<noteq> ''Traffic Incidents''"
      and body: "loop_body E incident_links cutoff lines s' = Next s'' \<or>
       loop_body E incident_links cutoff lines s' = Break s''"
  proof -
    from free have "current_category s' = current_category s"
      unfolding s' by (rule scan_steps_category)
    with loop_body_effect [OF body] show ?thesis by auto
  qed
  have names: "or_unknown None = ''UNKNOWN''" "or_unknown (Some ''FIRE'') = ''FIRE''"
    "or_unknown (Some ''EMS'') = ''EMS''" "or_unknown (Some ''TRAFFIC'') = ''TRAFFIC''"
    by (simp_all add: or_unknown_def)
  have result: "prefix (incidents s'') (fst (get_incidents E log))"
    if "http_get E log URL = Page anchors text_lines"
      "lines = nonblank_lines text_lines"
      "incident_links = links_loop E anchors Map.empty"
      "cutoff = datetime_now E (log @ [Http_get URL]) - hours 8"
      "s' = scan_steps n E incident_links cutoff lines (start_state (log @ [Http_get URL]))"
      "cursor s' < length lines" "loop_body E incident_links cutoff lines s' = Next s''"
    using that by (rule get_incidents_after_pass(2))
  have known: "\<forall>inc\<in>set (fst (get_incidents E log)).
      category inc \<in> {''FIRE'', ''EMS'', ''TRAFFIC'', ''UNKNOWN''}"
  proof (cases "http_get E log URL")
    case Fetch_failed
    then show ?thesis by (simp add: get_incidents_def)
  next
    case (Page anchors text_lines)
    then show ?thesis
      using scan_loop_categories
        [of "\<lparr>cursor = 0, current_category = None, incidents = [],
              history = log @ [Http_get URL]\<rparr>"
          E "links_loop E anchors Map.empty"
          "datetime_now E (log @ [Http_get URL]) - hours 8" "nonblank_lines text_lines"]
      by (simp add: get_incidents_def Let_def)
  qed
  have unknown: "\<forall>inc\<in>set (fst (get_incidents E log)). category inc = ''UNKNOWN''"
    if "http_get E log URL = Page anchors text_lines"
      "''Fire Incidents'' \<notin> set (nonblank_lines text_lines)"
      "''EMS Incidents'' \<notin> set (nonblank_lines text_lines)"
      "''Traffic Incidents'' \<notin> set (nonblank_lines text_lines)"
    using that scan_loop_no_header
        [of "\<lparr>cursor = 0, current_category = None, incidents = [],
              history = log @ [Http_get URL]\<rparr>"
          "nonblank_lines text_lines" E "links_loop E anchors Map.empty"
          "datetime_now E (log @ [Http_get URL]) - hours 8"]
    by (simp add: get_incidents_def Let_def)
  from headers block later names result known unknown
    scan_steps_enough [of lines s n E incident_links cutoff]
  show ?thesis by blast
qed

theorem category_follows_headers_witness:
  "lines_fire_nested ! 2 = ''EMS Incidents'' \<and>
   loop_body (env_page lines_fire_nested) Map.empty (example_now - hours 8) lines_fire_nested
     (start_state [Http_get URL]) =
     Next \<lparr>cursor = 1, current_category = Some ''FIRE'', incidents = [],
            history = [Http_get URL]\<rparr> \<and>
   cursor (scan_steps (Suc 0) (env_page lines_fire_nested) Map.empty (example_now - hours 8)
     lines_fire_nested
     \<lparr>cursor = 1, current_category = Some ''FIRE'', incidents = [],
       history = [Http_get URL]\<rparr>) = 7 \<and>
   current_category (scan_steps (Suc 0) (env_page lines_fire_nested) Map.empty
     (example_now - hours 8) lines_fire_nested
     \<lparr>cursor = 1, current_category = Some ''FIRE'', incidents = [],
       history = [Http_get URL]\<rparr>) = Some ''FIRE'' \<and>
   map inc_id (fst (get_incidents (env_page lines_fire_nested) [])) =
     [''F25065066'', ''F25065067''] \<and>
   map inc_type (fst (get_incidents (env_page lines_fire_nested) [])) =
     [''EMS Incidents'', ''CARDIAC ARREST''] \<and>
   map category (fst (get_incidents (env_page lines_fire_nested) [])) = [''FIRE'', ''FIRE'']"
proof -
  let ?E = "env_page lines_fire_nested"
  let ?c = "example_now - hours 8"
  let ?s1 = "\<lparr>cursor = 1, current_category = Some ''FIRE'', incidents = [],
       history = [Http_get URL]\<rparr>"
  let ?s' = "scan_steps (Suc 0) ?E Map.empty ?c lines_fire_nested ?s1"
  let ?s'' = "case loop_body ?E Map.empty ?c lines_fire_nested ?s' of
       Next x \<Rightarrow> x | Break x \<Rightarrow> x"
  have head: "loop_body ?E Map.empty ?c lines_fire_nested (start_state [Http_get URL]) =
     Next ?s1"
    using category_follows_headers
      [where lines = lines_fire_nested and s = "start_state [Http_get URL]" and E = ?E
        and incident_links = Map.empty and cutoff = ?c]
    by (simp add: lines_fire_nested_def lines_nested_def start_state_def)
  have steps: "cursor ?s' = 7 \<and> current_category ?s' = Some ''FIRE''"
    using category_follows_headers
      [where lines = lines_fire_nested and s = ?s1 and E = ?E
        and incident_links = Map.empty and cutoff = ?c and n = "Suc 0" and s' = ?s'
        and s'' = ?s'']
    by (simp add: lines_fire_nested_def lines_nested_def eval_defs)
  have result: "map inc_id (fst (get_incidents ?E [])) = [''F25065066'', ''F25065067''] \<and>
     map inc_type (fst (get_incidents ?E [])) = [''EMS Incidents'', ''CARDIAC ARREST''] \<and>
     map category (fst (get_incidents ?E [])) = [''FIRE'', ''FIRE'']"
    by (simp add: lines_fire_nested_def lines_nested_def env_page_def get_incidents_def
          nonblank_lines_def eval_defs)
  have "lines_fire_nested ! 2 = ''EMS Incidents''"
    by (simp add: lines_fire_nested_def lines_nested_def)
  with head steps result show ?thesis by blast
qed

text \<open>
  The claim as it was stated counts every line \<open>EMS Incidents\<close> of the input. Here that
  line is the type of the first block; the second block follows it with no other header
  in between, and is assigned UNKNOWN.
\<close>

theorem category_follows_headers_counterexample:
  "lines_nested ! 1 = ''EMS Incidents'' \<and>
   ''Fire Incidents'' \<notin> set lines_nested \<and> ''Traffic Incidents'' \<notin> set lines_nested \<and>
   id_re_match (lines_nested ! 6) \<and>
   map inc_id (incidents (scan_loop env_down Map.empty (example_now - hours 8) lines_nested
     (start_state []))) = [''F25065066'', ''F25065067''] \<and>
   map category (incidents (scan_loop env_down Map.empty (example_now - hours 8) lines_nested
     (start_state []))) = [''UNKNOWN'', ''UNKNOWN'']"
  by (simp add: lines_nested_def eval_defs)

section \<open>The poll cycle\<close>

lemma get_incidents_failed:
  "http_get E log URL = Fetch_failed \<Longrightarrow> get_incidents E log = ([], log @ [Http_get URL])"
  by (simp add: get_incidents_def)

text \<open>
  Claim C6, as amended. When the bus connects and the fetch of the primary page fails,
  \<open>get_incidents\<close> returns the empty list, and the cycle goes on to publish: a payload with
  \<open>total_incidents\<close> 0, \<open>filtered_incidents\<close> 0 and no incidents, then the disconnect. With
  or without a publish that succeeds, the cycle ends with the sleep of \<open>POLL_INTERVAL\<close>
  seconds, and the next pass of the loop follows.
\<close>

theorem primary_fetch_failure_cycle:
  assumes "mqtt_connect E log = Connect_ok"
    and "http_get E (log @ [Connect]) URL = Fetch_failed"
  shows "get_incidents E (log @ [Connect]) = ([], log @ [Connect, Http_get URL]) \<and>
     poll_cycle C E log =
       (if mqtt_publish E (log @ [Connect, Http_get URL])
        then log @
          [Connect, Http_get URL,
           Publish (MQTT_TOPIC C)
             \<lparr>last_update = datetime_now E (log @ [Connect, Http_get URL]),
              total_incidents = 0, filtered_incidents = 0, payload_incidents = []\<rparr>,
           Disconnect, Sleep (POLL_INTERVAL C)]
        else log @ [Connect, Http_get URL, Sleep (POLL_INTERVAL C)]) \<and>
     main_loop C E (Suc n) log = main_loop C E n (poll_cycle C E log)"
  using assms get_incidents_failed [OF assms(2)]
  by (simp add: poll_cycle_def filter_incidents_def)

theorem primary_fetch_failure_cycle_witness:
  "main_loop example_config env_down 2 [] =
     [Connect, Http_get URL,
      Publish ''chesco/cad/official_summary''
        \<lparr>last_update = example_now, total_incidents = 0, filtered_incidents = 0,
         payload_incidents = []\<rparr>,
      Disconnect, Sleep 60,
      Connect, Http_get URL,
      Publish ''chesco/cad/official_summary''
        \<lparr>last_update = example_now, total_incidents = 0, filtered_incidents = 0,
         payload_incidents = []\<rparr>,
      Disconnect, Sleep 60]"
proof -
  let ?cycle = "[Connect, Http_get URL,
      Publish ''chesco/cad/official_summary''
        \<lparr>last_update = example_now, total_incidents = 0, filtered_incidents = 0,
         payload_incidents = []\<rparr>,
      Disconnect, Sleep 60]"
  have one: "poll_cycle example_config env_down log = log @ ?cycle" for log
    using primary_fetch_failure_cycle [of env_down log example_config 0]
    by (simp add: env_down_def example_config_def)
  have "main_loop example_config env_down (Suc (Suc 0)) [] = ?cycle @ ?cycle"
    by (simp only: main_loop.simps one append_Nil)
  then show ?thesis
    by (simp add: numeral_2_eq_2)
qed

text \<open>
  The claim as it was stated has the cycle publish nothing. With every fetch failing, the
  cycle publishes the empty snapshot.
\<close>

theorem primary_fetch_failure_cycle_counterexample:
  "http_get env_down [Connect] URL = Fetch_failed \<and>
   poll_cycle example_config env_down [] =
     [Connect, Http_get URL,
      Publish ''chesco/cad/official_summary''
        \<lparr>last_update = example_now, total_incidents = 0, filtered_incidents = 0,
         payload_incidents = []\<rparr>,
      Disconnect, Sleep 60]"
  by (simp add: env_down_def example_config_def poll_cycle_def get_incidents_def
        filter_incidents_def)

lemma scan_loop_history:
  "\<exists>evs. history (scan_loop E incident_links cutoff lines s) = history s @ evs \<and>
     (\<forall>e\<in>set evs. \<exists>u. e = Http_get u)"
proof -
  let ?I = "\<lambda>s'. \<exists>evs. history s' = history s @ evs \<and> (\<forall>e\<in>set evs. \<exists>u. e = Http_get u)"
  show ?thesis
  proof (rule scan_loop_invariant [where I = ?I])
    show "?I s" by simp
  next
    fix s1 s2
    assume "?I s1" and "cursor s1 < length lines"
      and body: "loop_body E incident_links cutoff lines s1 = Next s2 \<or>
        loop_body E incident_links cutoff lines s1 = Break s2"
    then obtain evs where evs: "history s1 = history s @ evs" "\<forall>e\<in>set evs. \<exists>u. e = Http_get u"
      by blast
    from loop_body_effect [OF body] obtain evs' where
      evs': "history s2 = history s1 @ evs'" "\<forall>e\<in>set evs'. \<exists>u. e = Http_get u"
      by blast
    from evs evs' have "history s2 = history s @ (evs @ evs')"
      "\<forall>e\<in>set (evs @ evs'). \<exists>u. e = Http_get u"
      by auto
    then show "?I s2" by blast
  qed
qed

lemma get_incidents_history:
  "\<exists>evs. snd (get_incidents E log) = log @ evs \<and> (\<forall>e\<in>set evs. \<exists>u. e = Http_get u)"
proof (cases "http_get E log URL")
  case Fetch_failed
  then show ?thesis by (simp add: get_incidents_def)
next
  case (Page anchors text_lines)
  from scan_loop_history
    [of E "links_loop E anchors Map.empty" "datetime_now E (log @ [Http_get URL]) - hours 8"
      "nonblank_lines text_lines"
      "\<lparr>cursor = 0, current_category = None, incidents = [], history = log @ [Http_get URL]\<rparr>"]
  obtain evs where "history (scan_loop E (links_loop E anchors Map.empty)
      (datetime_now E (log @ [Http_get URL]) - hours 8) (nonblank_lines text_lines)
      \<lparr>cursor = 0, current_category = None, incidents = [], history = log @ [Http_get URL]\<rparr>) =
      (log @ [Http_get URL]) @ evs" "\<forall>e\<in>set evs. \<exists>u. e = Http_get u"
    by auto
  then have "snd (get_incidents E log) = log @ (Http_get URL # evs)"
    "\<forall>e\<in>set (Http_get URL # evs). \<exists>u. e = Http_get u"
    using Page by (simp_all add: get_incidents_def Let_def)
  then show ?thesis by blast
qed

lemma filter_incidents_subseq: "subseq (filter_incidents target_filters incs) incs"
  by (simp add: filter_incidents_def filter_loop_eq)

text \<open>Where a published payload comes from.\<close>

lemma poll_cycle_published:
  assumes "Publish topic p \<in> set (poll_cycle C E log)"
  shows "Publish topic p \<in> set log \<or>
     (\<exists>log'. total_incidents p = length (fst (get_incidents E log')) \<and>
        filtered_incidents p = length (payload_incidents p) \<and>
        payload_incidents p = filter_incidents (TARGET_FILTERS C) (fst (get_incidents E log')))"
proof (cases "mqtt_connect E log")
  case Connect_ok
  obtain incs log2 where g: "get_incidents E (log @ [Connect]) = (incs, log2)"
    by (cases "get_incidents E (log @ [Connect])")
  from get_incidents_history [of E "log @ [Connect]"] g obtain evs where
    evs: "log2 = (log @ [Connect]) @ evs" "\<forall>e\<in>set evs. \<exists>u. e = Http_get u"
    by auto
  then have old: "Publish topic p \<in> set log2 \<Longrightarrow> Publish topic p \<in> set log"
    by auto
  from assms Connect_ok g old have "Publish topic p \<in> set log \<or>
      p = \<lparr>last_update = datetime_now E log2, total_incidents = length incs,
           filtered_incidents = length (filter_incidents (TARGET_FILTERS C) incs),
           payload_incidents = filter_incidents (TARGET_FILTERS C) incs\<rparr>"
    by (auto simp: poll_cycle_def Let_def split: if_splits)
  then show ?thesis
  proof
    assume "Publish topic p \<in> set log"
    then show ?thesis ..
  next
    assume "p = \<lparr>last_update = datetime_now E log2, total_incidents = length incs,
           filtered_incidents = length (filter_incidents (TARGET_FILTERS C) incs),
           payload_incidents = filter_incidents (TARGET_FILTERS C) incs\<rparr>"
    with g have "total_incidents p = length (fst (get_incidents E (log @ [Connect]))) \<and>
        filtered_incidents p = length (payload_incidents p) \<and>
        payload_incidents p =
          filter_incidents (TARGET_FILTERS C) (fst (get_incidents E (log @ [Connect])))"
      by simp
    then show ?thesis by blast
  qed
next
  case Connect_OSError
  with assms show ?thesis by (simp add: poll_cycle_def)
next
  case Connect_error
  with assms show ?thesis by (simp add: poll_cycle_def)
qed

lemma main_loop_published:
  assumes "Publish topic p \<in> set (main_loop C E n log)"
  shows "Publish topic p \<in> set log \<or>
     (\<exists>log'. total_incidents p = length (fst (get_incidents E log')) \<and>
        filtered_incidents p = length (payload_incidents p) \<and>
        payload_incidents p = filter_incidents (TARGET_FILTERS C) (fst (get_incidents E log')))"
  using assms
proof (induction n arbitrary: log)
  case 0
  then show ?case by simp
next
  case (Suc n)
  from Suc.prems have "Publish topic p \<in> set (main_loop C E n (poll_cycle C E log))"
    by simp
  from Suc.IH [OF this] poll_cycle_published [of topic p C E log] show ?case
    by blast
qed

text \<open>
  Claim C10. In every payload published by the loop, in any number of passes,
  \<open>filtered_incidents\<close> is the length of the incidents array and at most
  \<open>total_incidents\<close>, which is the length of the list that \<open>get_incidents\<close> returned; the
  array is what \<open>filter_incidents\<close> made of that list, a subsequence of it in the same order,
  its incidents unchanged.
\<close>

theorem published_payload_counts:
  assumes "Publish topic p \<in> set (main_loop C E n [])"
  shows "filtered_incidents p = length (payload_incidents p) \<and>
     filtered_incidents p \<le> total_incidents p \<and>
     (\<exists>log. total_incidents p = length (fst (get_incidents E log)) \<and>
        payload_incidents p = filter_incidents (TARGET_FILTERS C) (fst (get_incidents E log)) \<and>
        subseq (payload_incidents p) (fst (get_incidents E log)))"
proof -
  from main_loop_published [OF assms] obtain log where
    p: "total_incidents p = length (fst (get_incidents E log))"
      "filtered_incidents p = length (payload_incidents p)"
      "payload_incidents p = filter_incidents (TARGET_FILTERS C) (fst (get_incidents E log))"
    by auto
  have sub: "subseq (payload_incidents p) (fst (get_incidents E log))"
    unfolding p(3) by (rule filter_incidents_subseq)
  then have "length (payload_incidents p) \<le> length (fst (get_incidents E log))"
    by (rule list_emb_length)
  with p sub show ?thesis by auto
qed


lemma main_loop_up:
  "main_loop example_config env_up (Suc 0) [] =
     [Connect, Http_get URL,
      Http_get ''https://webcad.chesco.org/WebCad/LiveCADComments.asp?eid=1'',
      Publish ''chesco/cad/official_summary'' example_payload, Disconnect, Sleep 60]"
  by (simp add: example_payload_def example_config_def env_up_def poll_cycle_def
        get_incidents_def nonblank_lines_def example_page_lines_def example_comment_lines_def
        incident_east_def URL_def lower_def lower_char_def char_of_def bit_Suc_0_iff
        split_def before_gt_def filter_incidents_def eval_defs)

theorem published_payload_counts_witness:
  "Publish ''chesco/cad/official_summary'' example_payload
     \<in> set (main_loop example_config env_up (Suc 0) []) \<and>
   filtered_incidents example_payload = length (payload_incidents example_payload) \<and>
   filtered_incidents example_payload \<le> total_incidents example_payload \<and>
   (\<exists>log. total_incidents example_payload = length (fst (get_incidents env_up log)) \<and>
      subseq (payload_incidents example_payload) (fst (get_incidents env_up log)))"
proof -
  have "Publish ''chesco/cad/official_summary'' example_payload
     \<in> set (main_loop example_config env_up (Suc 0) [])"
    unfolding main_loop_up by simp
  from this published_payload_counts [OF this] show ?thesis
    by blast
qed

end
